theory Spec2Isabelle
  imports Main
begin

section \<open>Strings and paths of the runtime\<close>

text \<open>
  A string of the program is modelled as a \<^typ>\<open>string\<close> holding its UTF-8 bytes. Every
  separator and marker the router looks for (\<open>/\<close>, \<open>?\<close>, \<open>.\<close>, \<open>:\<close>, \<open>+\<close>, \<open>*\<close>, \<open>[\<close>, \<open>]\<close>,
  \<open>_\<close>, \<open>%\<close>) is a single ASCII byte, so splitting, prefix and suffix tests and
  equality agree with the program's on its UTF-16 strings.
\<close>

definition startsWith :: "string \<Rightarrow> string \<Rightarrow> bool" where
  "startsWith s p = (take (length p) s = p)"

definition endsWith :: "string \<Rightarrow> string \<Rightarrow> bool" where
  "endsWith s p = (length p \<le> length s \<and> drop (length s - length p) s = p)"

text \<open>\<open>s.split(sep)\<close> for a one-character separator: never the empty list.\<close>

fun js_split :: "char \<Rightarrow> string \<Rightarrow> string list" where
  "js_split sep [] = [[]]"
| "js_split sep (c # cs) =
     (if c = sep then [] # js_split sep cs
      else (case js_split sep cs of [] \<Rightarrow> [[c]] | p # ps \<Rightarrow> (c # p) # ps))"

text \<open>\<open>xs.join(sep)\<close>.\<close>

fun js_join :: "string \<Rightarrow> string list \<Rightarrow> string" where
  "js_join sep [] = []"
| "js_join sep [x] = x"
| "js_join sep (x # y # ys) = x @ sep @ js_join sep (y # ys)"

text \<open>\<open>s.split("/").filter(Boolean)\<close>: the non-empty segments.\<close>

definition segments_of :: "string \<Rightarrow> string list" where
  "segments_of s = filter (\<lambda>p. p \<noteq> []) (js_split CHR ''/'' s)"

text \<open>
  \<open>s.slice(1, -1)\<close> and \<open>s.slice(1)\<close>. The program drops the first UTF-16 unit of the
  segment (and the last), the model its first byte (and the last): the same for a segment
  that starts with an ASCII character, as every segment with a leading \<open>:\<close> does. The last
  character dropped is always the ASCII \<open>+\<close> or \<open>*\<close> just tested.
\<close>

definition slice_1_m1 :: "string \<Rightarrow> string" where
  "slice_1_m1 s = butlast (tl s)"

definition slice_1 :: "string \<Rightarrow> string" where
  "slice_1 s = tl s"

text \<open>
  \<open>toLowerCase\<close> on the ASCII letters. The only non-ASCII character that lower-cases to an
  ASCII letter is the Kelvin sign (to \<open>k\<close>), and no verb of \<open>HTTP_METHODS\<close> has a \<open>k\<close>.
\<close>

definition toLowerChar :: "char \<Rightarrow> char" where
  "toLowerChar c =
     (case map_of (zip ''ABCDEFGHIJKLMNOPQRSTUVWXYZ'' ''abcdefghijklmnopqrstuvwxyz'') c of
        Some l \<Rightarrow> l
      | None \<Rightarrow> c)"

definition toLowerCase :: "string \<Rightarrow> string" where
  "toLowerCase s = map toLowerChar s"

text \<open>The character class \<open>\w\<close> of the regular expressions: letters, digits, underscore.\<close>

definition is_word_char :: "char \<Rightarrow> bool" where
  "is_word_char c =
     (let n = (of_char c :: nat) in
      (48 \<le> n \<and> n \<le> 57) \<or> (65 \<le> n \<and> n \<le> 90) \<or> (97 \<le> n \<and> n \<le> 122) \<or> n = 95)"

definition is_word :: "string \<Rightarrow> bool" where
  "is_word s = (s \<noteq> [] \<and> list_all is_word_char s)"

text \<open>
  \<open>s.replace(/\.(e1|e2|...)$/, "")\<close>: the first listed extension that ends the string is
  cut off. None of the extensions used contains a dot after its first character, so
  at most one position of the string matches and the order of the list is immaterial.
\<close>

fun strip_ext :: "string list \<Rightarrow> string \<Rightarrow> string" where
  "strip_ext [] s = s"
| "strip_ext (e # es) s =
     (if endsWith s e then take (length s - length e) s else strip_ext es s)"

definition page_exts :: "string list" where
  "page_exts = [''.vue'', ''.tsx'', ''.ts'', ''.jsx'', ''.js'']"

definition api_exts :: "string list" where
  "api_exts = [''.ts'', ''.js'']"

text \<open>The three bracket forms: \<open>/^\[\.\.\.(\w+)\]$/\<close>, \<open>/^\[\[\.\.\.(\w+)\]\]$/\<close> and
  \<open>/^\[(\w+)\]$/\<close>, each returning its capture group.\<close>

definition match_catch_all :: "string \<Rightarrow> string option" where
  "match_catch_all seg =
     (let name = butlast (drop 4 seg) in
      if startsWith seg ''[...'' \<and> endsWith seg '']'' \<and> is_word name then Some name else None)"

definition match_optional_catch_all :: "string \<Rightarrow> string option" where
  "match_optional_catch_all seg =
     (let name = drop 5 (take (length seg - 2) seg) in
      if startsWith seg ''[[...'' \<and> endsWith seg '']]'' \<and> is_word name then Some name
      else None)"

definition match_dynamic :: "string \<Rightarrow> string option" where
  "match_dynamic seg =
     (let name = butlast (tl seg) in
      if startsWith seg ''['' \<and> endsWith seg '']'' \<and> is_word name then Some name else None)"

text \<open>
  \<open>path.basename\<close> and \<open>path.join\<close> of the runtime, for POSIX paths (\<open>path.sep\<close> is
  \<open>/\<close>). The base name is the last non-empty segment. A join puts \<open>/\<close> between its non-empty
  arguments and normalises the result: empty and \<open>.\<close> segments go, \<open>..\<close> removes the segment
  before it (or stays, in a relative path that has none), a trailing slash stays.
\<close>

definition basename :: "string \<Rightarrow> string" where
  "basename p = (case rev (segments_of p) of [] \<Rightarrow> [] | s # _ \<Rightarrow> s)"

fun normalize_segments :: "bool \<Rightarrow> string list \<Rightarrow> string list \<Rightarrow> string list" where
  "normalize_segments allowAboveRoot acc [] = rev acc"
| "normalize_segments allowAboveRoot acc (s # ss) =
     (if s = [] \<or> s = ''.'' then normalize_segments allowAboveRoot acc ss
      else if s = ''..'' then
        (case acc of
           [] \<Rightarrow> normalize_segments allowAboveRoot (if allowAboveRoot then [''..''] else []) ss
         | a # as \<Rightarrow>
             if a = ''..'' then
               normalize_segments allowAboveRoot (if allowAboveRoot then ''..'' # acc else acc) ss
             else normalize_segments allowAboveRoot as ss)
      else normalize_segments allowAboveRoot (s # acc) ss)"

definition path_normalize :: "string \<Rightarrow> string" where
  "path_normalize p =
     (if p = [] then ''.''
      else
        (let isAbsolute = startsWith p ''/'';
             trailingSeparator = endsWith p ''/'';
             body = js_join ''/'' (normalize_segments (\<not> isAbsolute) [] (js_split CHR ''/'' p))
         in if body = [] then (if isAbsolute then ''/'' else if trailingSeparator then ''./'' else ''.'')
            else (if isAbsolute then ''/'' else []) @ body @ (if trailingSeparator then ''/'' else [])))"

definition path_join :: "string list \<Rightarrow> string" where
  "path_join args =
     (let joined = js_join ''/'' (filter (\<lambda>a. a \<noteq> []) args) in
      if joined = [] then ''.'' else path_normalize joined)"

section \<open>Page routes: \<open>routing/router.ts\<close>\<close>

text \<open>
  The interface \<open>Route\<close>. Its \<open>children\<close> are routes with relative patterns; a value of
  this type is what \<open>matchRoute\<close> reads.
\<close>

datatype Route =
  Route (pattern: string) (filePath: string) (isDynamic: bool) (params: "string list")
    (children: "Route list")

subsection \<open>\<open>routePrecedence\<close>\<close>

fun precedence_loop :: "nat \<Rightarrow> string list \<Rightarrow> nat \<Rightarrow> nat" where
  "precedence_loop i [] score = score"
| "precedence_loop i (p # parts) score =
     precedence_loop (Suc i) parts
       (if endsWith p ''+'' then score + (10000 + i)
        else if endsWith p ''*'' then score + (20000 + i)
        else if startsWith p '':'' then score + (100 + i)
        else score)"

definition routePrecedence :: "string \<Rightarrow> nat" where
  "routePrecedence pat = precedence_loop 0 (segments_of pat) 0"

subsection \<open>\<open>matchPattern\<close>, \<open>matchChildren\<close>, \<open>matchRoute\<close>\<close>

text \<open>
  A bound parameter is a string (a dynamic segment) or a list of strings (a catch-all). The
  parameter object is made by \<open>Object.create(null)\<close>, so it is a plain finite map: every
  name, \<open>__proto__\<close> too, is an ordinary key.
\<close>

datatype param_value = Scalar string | Segments "string list"

type_synonym page_params = "string \<rightharpoonup> param_value"

text \<open>
  The loop of \<open>matchPattern\<close> over \<open>parts_pattern\<close>: \<open>i\<close> is the loop index, \<open>n\<close> the length
  of \<open>parts_pattern\<close> for the check after the loop.
\<close>

fun match_loop :: "nat \<Rightarrow> string list \<Rightarrow> string list \<Rightarrow> nat \<Rightarrow> page_params \<Rightarrow> page_params option" where
  "match_loop i [] parts_url n ps = (if length parts_url \<noteq> n then None else Some ps)"
| "match_loop i (pp # rest) parts_url n ps =
     (if endsWith pp ''+'' then
        (let name_param = slice_1_m1 pp; remaining = drop i parts_url in
         if remaining = [] then None else Some (ps(name_param \<mapsto> Segments remaining)))
      else if endsWith pp ''*'' then
        (let name_param = slice_1_m1 pp; remaining = drop i parts_url in
         Some (ps(name_param \<mapsto> Segments remaining)))
      else if startsWith pp '':'' then
        (let name_param = slice_1 pp in
         if i \<ge> length parts_url then None
         else match_loop (Suc i) rest parts_url n (ps(name_param \<mapsto> Scalar (parts_url ! i))))
      else if i \<ge> length parts_url \<or> parts_url ! i \<noteq> pp then None
      else match_loop (Suc i) rest parts_url n ps)"

definition matchPattern :: "string \<Rightarrow> string \<Rightarrow> page_params option" where
  "matchPattern url pat =
     (let parts_url = segments_of url; parts_pattern = segments_of pat in
      match_loop 0 parts_pattern parts_url (length parts_pattern) Map.empty)"






subsection \<open>URL normalisation and \<open>matchRoute\<close>\<close>

text \<open>
  \<open>decodeURIComponent\<close> of the runtime, which throws \<open>URIError\<close> on a malformed escape. A
  \<open>%\<close> must be followed by two hexadecimal digits. An escaped byte below 128 is the
  character itself; a byte that opens a UTF-8 sequence of two to four bytes must be
  followed by that many escaped continuation bytes, and the sequence must encode a code
  point (no overlong form, no surrogate, nothing above U+10FFFF). The decoded character
  is, in this model, its UTF-8 bytes.
\<close>

datatype uri_error = URIError

datatype uri_token = Plain char | Octet nat

definition hex_value :: "char \<Rightarrow> nat option" where
  "hex_value c =
     (let n = (of_char c :: nat) in
      if 48 \<le> n \<and> n \<le> 57 then Some (n - 48)
      else if 65 \<le> n \<and> n \<le> 70 then Some (n - 55)
      else if 97 \<le> n \<and> n \<le> 102 then Some (n - 87)
      else None)"

fun uri_tokens :: "string \<Rightarrow> uri_token list option" where
  "uri_tokens [] = Some []"
| "uri_tokens (c # cs) =
     (if c = CHR ''%'' then
        (case cs of
           a # b # rest \<Rightarrow>
             (case (hex_value a, hex_value b) of
                (Some h, Some l) \<Rightarrow> map_option ((#) (Octet (16 * h + l))) (uri_tokens rest)
              | _ \<Rightarrow> None)
         | _ \<Rightarrow> None)
      else map_option ((#) (Plain c)) (uri_tokens cs))"

text \<open>The number of bytes a leading byte announces: its count of leading one bits.\<close>

definition utf8_length :: "nat \<Rightarrow> nat" where
  "utf8_length b =
     (if b < 128 then 0 else if b < 192 then 1 else if b < 224 then 2
      else if b < 240 then 3 else if b < 248 then 4 else 5)"

definition is_continuation :: "nat \<Rightarrow> bool" where
  "is_continuation b = (128 \<le> b \<and> b < 192)"

fun utf8_valid :: "nat list \<Rightarrow> bool" where
  "utf8_valid [b0, b1] = (194 \<le> b0 \<and> b0 < 224 \<and> is_continuation b1)"
| "utf8_valid [b0, b1, b2] =
     (224 \<le> b0 \<and> b0 < 240 \<and> is_continuation b1 \<and> is_continuation b2
      \<and> (if b0 = 224 then 160 \<le> b1 else if b0 = 237 then b1 < 160 else True))"
| "utf8_valid [b0, b1, b2, b3] =
     (240 \<le> b0 \<and> b0 < 245 \<and> is_continuation b1 \<and> is_continuation b2 \<and> is_continuation b3
      \<and> (if b0 = 240 then 144 \<le> b1 else if b0 = 244 then b1 < 144 else True))"
| "utf8_valid _ = False"

fun octets_of :: "uri_token list \<Rightarrow> nat list option" where
  "octets_of [] = Some []"
| "octets_of (Octet b # ts) = map_option ((#) b) (octets_of ts)"
| "octets_of (Plain c # ts) = None"

fun decode_tokens :: "uri_token list \<Rightarrow> string option" where
  "decode_tokens [] = Some []"
| "decode_tokens (Plain c # ts) = map_option ((#) c) (decode_tokens ts)"
| "decode_tokens (Octet b # ts) =
     (let n = utf8_length b in
      if n = 0 then map_option ((#) (char_of b)) (decode_tokens ts)
      else if n = 1 \<or> n > 4 then None
      else if length ts < n - 1 then None
      else
        (case octets_of (take (n - 1) ts) of
           None \<Rightarrow> None
         | Some continuation \<Rightarrow>
             if utf8_valid (b # continuation)
             then map_option ((@) (map char_of (b # continuation))) (decode_tokens (drop (n - 1) ts))
             else None))"

definition decodeURIComponent :: "string \<Rightarrow> uri_error + string" where
  "decodeURIComponent s =
     (case uri_tokens s of
        None \<Rightarrow> Inl URIError
      | Some ts \<Rightarrow> (case decode_tokens ts of None \<Rightarrow> Inl URIError | Some r \<Rightarrow> Inr r))"





subsection \<open>\<open>fileToRoute\<close>\<close>

text \<open>
  The callback of \<open>segments.map\<close> returns the converted segment and, for a bracket form,
  pushes the captured name to \<open>params\<close> and sets \<open>is_dynamic\<close>. \<open>convert_segment\<close> is the
  callback: the segment it returns, and the name it pushes if it pushes one. \<open>map_segments\<close>
  is the \<open>map\<close>, with \<open>params\<close> (here \<open>names\<close>) and \<open>is_dynamic\<close> threaded through.
\<close>

definition convert_segment :: "string \<Rightarrow> string \<times> string option" where
  "convert_segment segment =
     (case match_catch_all segment of
        Some name \<Rightarrow> ('':'' @ name @ ''+'', Some name)
      | None \<Rightarrow>
     (case match_optional_catch_all segment of
        Some name \<Rightarrow> ('':'' @ name @ ''*'', Some name)
      | None \<Rightarrow>
     (case match_dynamic segment of
        Some name \<Rightarrow> ('':'' @ name, Some name)
      | None \<Rightarrow> (segment, None))))"

fun map_segments :: "string list \<Rightarrow> string list \<Rightarrow> bool \<Rightarrow> string list \<times> string list \<times> bool" where
  "map_segments [] names is_dynamic = ([], names, is_dynamic)"
| "map_segments (segment # rest) names is_dynamic =
     (case convert_segment segment of
        (converted, Some name) \<Rightarrow>
          (case map_segments rest (names @ [name]) True of
             (urls, ps, d) \<Rightarrow> (converted # urls, ps, d))
      | (converted, None) \<Rightarrow>
          (case map_segments rest names is_dynamic of
             (urls, ps, d) \<Rightarrow> (converted # urls, ps, d)))"

text \<open>
  \<open>fileToRoute\<close> has the return type \<open>Route | null\<close> and one \<open>return\<close>, of a route: it never
  returns \<open>null\<close>. The route's \<open>children\<close> is a fresh empty array.
\<close>

definition fileToRoute :: "string \<Rightarrow> string \<Rightarrow> Route" where
  "fileToRoute file pagesDir =
     (let ext_without = strip_ext page_exts file;
          segments = js_split CHR ''/'' ext_without;
          segments = (if last segments = ''index'' then butlast segments else segments)
      in case map_segments segments [] False of
           (segments_url, ps, is_dynamic) \<Rightarrow>
             Route (''/'' @ js_join ''/'' segments_url) (path_join [pagesDir, file]) is_dynamic ps [])"

subsection \<open>\<open>buildRouteTree\<close>\<close>

text \<open>
  \<open>a.pattern.localeCompare(b.pattern)\<close> is the runtime's collation of the process locale. It
  is a parameter \<open>lc\<close> of the model; \<open>code_unit_compare\<close>, the comparison of two strings byte
  by byte, is the instance used where a concrete comparison is needed.
\<close>

fun code_unit_compare :: "string \<Rightarrow> string \<Rightarrow> int" where
  "code_unit_compare [] [] = 0"
| "code_unit_compare [] (y # ys) = - 1"
| "code_unit_compare (x # xs) [] = 1"
| "code_unit_compare (x # xs) (y # ys) =
     (if (of_char x :: nat) < of_char y then - 1
      else if (of_char y :: nat) < of_char x then 1
      else code_unit_compare xs ys)"

text \<open>The comparator passed to both calls of \<open>sort\<close>, on the two patterns.\<close>

definition compare_patterns :: "(string \<Rightarrow> string \<Rightarrow> int) \<Rightarrow> string \<Rightarrow> string \<Rightarrow> int" where
  "compare_patterns lc a b =
     (let diff = int (routePrecedence a) - int (routePrecedence b) in
      if diff \<noteq> 0 then diff else lc a b)"

text \<open>
  \<open>Array.prototype.sort\<close> with a comparator is a stable sort. For a comparator that orders
  its arguments consistently the result is the one stable sorted arrangement, which
  insertion from the right computes.
\<close>

fun insert_by :: "('a \<Rightarrow> 'a \<Rightarrow> int) \<Rightarrow> 'a \<Rightarrow> 'a list \<Rightarrow> 'a list" where
  "insert_by cmp x [] = [x]"
| "insert_by cmp x (y # ys) = (if cmp x y \<le> 0 then x # y # ys else y # insert_by cmp x ys)"

definition array_sort :: "('a \<Rightarrow> 'a \<Rightarrow> int) \<Rightarrow> 'a list \<Rightarrow> 'a list" where
  "array_sort cmp xs = foldr (insert_by cmp) xs []"

text \<open>
  \<open>map_parent\<close> is a \<open>Map\<close> from a pattern to a route object of \<open>flat_routes\<close>. A route
  object is identified by its index in \<open>flat_routes\<close> (each is a distinct object, made by
  one call of \<open>fileToRoute\<close>). \<open>Map.set\<close> on a key that is present replaces the value and
  keeps the key's place in the iteration order.
\<close>

type_synonym parent_map = "(string \<times> nat) list"

fun map_set :: "parent_map \<Rightarrow> string \<Rightarrow> nat \<Rightarrow> parent_map" where
  "map_set [] k v = [(k, v)]"
| "map_set ((k', v') # m) k v = (if k' = k then (k, v) # m else (k', v') # map_set m k v)"

text \<open>\<open>basename.match(/^index\.(vue|tsx?|jsx?)$/)\<close>.\<close>

definition is_index_file :: "string \<Rightarrow> bool" where
  "is_index_file name =
     (name \<in> set [''index.vue'', ''index.ts'', ''index.tsx'', ''index.js'', ''index.jsx''])"

text \<open>First pass: \<open>i\<close> is the index of \<open>route\<close> in \<open>flat_routes\<close>.\<close>

fun parents_pass :: "nat \<Rightarrow> Route list \<Rightarrow> parent_map \<Rightarrow> parent_map" where
  "parents_pass i [] map_parent = map_parent"
| "parents_pass i (route # rest) map_parent =
     (if pattern route = ''/'' then parents_pass (Suc i) rest map_parent
      else if is_index_file (basename (filePath route)) then parents_pass (Suc i) rest map_parent
      else parents_pass (Suc i) rest (map_set map_parent (pattern route) i))"

text \<open>
  The \<open>children\<close> arrays are mutable and shared, so they live in a store: the array that
  \<open>fileToRoute\<close> made for \<open>flat_routes[i]\<close> is \<open>arrays ! i\<close>. The object
  \<open>{...route, pattern: pattern_child}\<close> pushed for \<open>route = flat_routes[i]\<close> is written
  \<open>(i, pattern_child)\<close>: its other properties are those of \<open>flat_routes[i]\<close>, and its
  \<open>children\<close> is the same array \<open>arrays ! i\<close>, since the spread copies the reference.
\<close>

type_synonym child_ref = "nat \<times> string"

type_synonym children_store = "child_ref list list"

text \<open>Second pass, inner loop: the entries of \<open>map_parent\<close> for \<open>route = flat_routes[i]\<close>.\<close>

fun attach_loop ::
    "Route \<Rightarrow> nat \<Rightarrow> parent_map \<Rightarrow> children_store \<times> nat set \<Rightarrow> children_store \<times> nat set" where
  "attach_loop route i [] st = st"
| "attach_loop route i ((pattern_parent, j) # entries) (arrays, set_child_indices) =
     (if i = j then attach_loop route i entries (arrays, set_child_indices)
      else
        (let prefix = pattern_parent @ ''/'';
             is_direct_child =
               (startsWith (pattern route) prefix
                \<and> CHR ''/'' \<notin> set (drop (length prefix) (pattern route)));
             is_index_child = (pattern route = pattern_parent \<and> i \<noteq> j)
         in
         if is_direct_child \<or> is_index_child then
           (let pattern_child =
                  (if is_index_child then [] else drop (length prefix) (pattern route))
            in attach_loop route i entries
                 (arrays[j := arrays ! j @ [(i, pattern_child)]], insert i set_child_indices))
         else attach_loop route i entries (arrays, set_child_indices)))"

text \<open>Second pass, outer loop.\<close>

fun children_pass ::
    "nat \<Rightarrow> Route list \<Rightarrow> parent_map \<Rightarrow> children_store \<times> nat set \<Rightarrow> children_store \<times> nat set" where
  "children_pass i [] map_parent st = st"
| "children_pass i (route # rest) map_parent st =
     children_pass (Suc i) rest map_parent (attach_loop route i map_parent st)"

text \<open>Third pass: the routes that stay at the top, each with its own array sorted in place.\<close>

fun top_pass ::
    "(string \<Rightarrow> string \<Rightarrow> int) \<Rightarrow> nat \<Rightarrow> Route list \<Rightarrow> nat set \<Rightarrow> children_store \<times> nat list
       \<Rightarrow> children_store \<times> nat list" where
  "top_pass lc i [] set_child_indices st = st"
| "top_pass lc i (route # rest) set_child_indices (arrays, routes_top) =
     (if i \<in> set_child_indices
      then top_pass lc (Suc i) rest set_child_indices (arrays, routes_top)
      else
        top_pass lc (Suc i) rest set_child_indices
          ((if length (arrays ! i) > 0
            then arrays[i := array_sort (\<lambda>a b. compare_patterns lc (snd a) (snd b)) (arrays ! i)]
            else arrays),
           routes_top @ [i]))"

text \<open>
  The value \<open>buildRouteTree\<close> returns: \<open>routes_top\<close>, as indices into \<open>flat_routes\<close>, with the
  store of the \<open>children\<close> arrays these objects and their copies refer to.
\<close>

record route_table =
  flat_routes :: "Route list"
  routes_top :: "nat list"
  arrays :: children_store

definition buildRouteTree :: "(string \<Rightarrow> string \<Rightarrow> int) \<Rightarrow> Route list \<Rightarrow> route_table" where
  "buildRouteTree lc flat =
     (let map_parent = parents_pass 0 flat [];
          (arrays1, set_child_indices) =
             children_pass 0 flat map_parent (replicate (length flat) [], {});
          (arrays2, tops) = top_pass lc 0 flat set_child_indices (arrays1, [])
      in \<lparr> flat_routes = flat,
           routes_top =
             array_sort (\<lambda>a b. compare_patterns lc (pattern (flat ! a)) (pattern (flat ! b))) tops,
           arrays = arrays2 \<rparr>)"

text \<open>
  The routes of a table as values, read to a depth of \<open>fuel\<close> levels of \<open>children\<close>: the
  object \<open>(i, pat)\<close> with the routes of its array below it. \<open>None\<close> when the arrays go deeper.
\<close>

fun route_value :: "nat \<Rightarrow> route_table \<Rightarrow> nat \<Rightarrow> string \<Rightarrow> Route option" where
  "route_value 0 t i pat = None"
| "route_value (Suc fuel) t i pat =
     (case those (map (\<lambda>(k, p). route_value fuel t k p) (arrays t ! i)) of
        None \<Rightarrow> None
      | Some cs \<Rightarrow>
          Some (Route pat (filePath (flat_routes t ! i)) (isDynamic (flat_routes t ! i))
                  (params (flat_routes t ! i)) cs))"

definition route_values :: "nat \<Rightarrow> route_table \<Rightarrow> Route list option" where
  "route_values fuel t =
     those (map (\<lambda>i. route_value fuel t i (pattern (flat_routes t ! i))) (routes_top t))"

subsection \<open>\<open>scanPageRoutes\<close>\<close>

text \<open>
  The file system as the scanners see it: a directory that exists gives, for a glob
  pattern, the paths the runtime's \<open>glob\<close> yields below it (relative to it, in the order of
  the iteration); a directory that does not exist is \<open>None\<close>. The iterator of the runtime
  yields nothing for a directory it cannot read, so a missing \<open>cwd\<close> is an empty iteration.
\<close>

type_synonym filesystem = "string \<Rightarrow> (string \<Rightarrow> string list) option"

definition existsSync :: "filesystem \<Rightarrow> string \<Rightarrow> bool" where
  "existsSync fs dir = (fs dir \<noteq> None)"

definition glob :: "filesystem \<Rightarrow> string \<Rightarrow> string \<Rightarrow> string list" where
  "glob fs pat cwd = (case fs cwd of None \<Rightarrow> [] | Some yield \<Rightarrow> yield pat)"

text \<open>The \<open>for await\<close> loop over the files, with its \<open>continue\<close>.\<close>

fun page_files_loop :: "string \<Rightarrow> string list \<Rightarrow> Route list \<Rightarrow> Route list" where
  "page_files_loop pagesDir [] flat = flat"
| "page_files_loop pagesDir (file # files) flat =
     (if list_ex (\<lambda>segment. startsWith segment ''_'') (js_split CHR ''/'' file)
      then page_files_loop pagesDir files flat
      else page_files_loop pagesDir files (flat @ [fileToRoute file pagesDir]))"

definition scanPageRoutes :: "(string \<Rightarrow> string \<Rightarrow> int) \<Rightarrow> filesystem \<Rightarrow> string \<Rightarrow> route_table" where
  "scanPageRoutes lc fs pagesDir =
     buildRouteTree lc
       (page_files_loop pagesDir (glob fs ''**/*.{vue,tsx,ts,jsx,js}'' pagesDir) [])"

subsection \<open>\<open>scanRoutes\<close> and \<open>invalidateRouteCache\<close>\<close>

text \<open>
  The module state is \<open>routeCache\<close>. The program runs on one thread, and an \<open>async\<close>
  function runs without interruption from one \<open>await\<close> to the next, so \<open>scanRoutes\<close> is two
  atomic steps: from the call to \<open>await promise\<close>, and from there to the \<open>return\<close>. The
  promises made by \<open>scanPageRoutes\<close> are numbered in the order of the calls; each call is
  one walk of the file system (the fields \<open>routes\<close> and \<open>promise\<close> of a cache entry are
  \<open>entry_routes\<close> and \<open>entry_promise\<close>), so the length of \<open>promises\<close> counts the walks. A walk ends
  when the environment says so, with the files it yielded.
\<close>

datatype promise_state = Pending | Fulfilled route_table

record cache_entry =
  entry_routes :: route_table
  entry_promise :: nat

record router_state =
  routeCache :: "string \<rightharpoonup> cache_entry"
  promises :: "(string \<times> promise_state) list"
  suspended :: "(string \<times> nat) list"

definition initial_state :: router_state where
  "initial_state = \<lparr> routeCache = Map.empty, promises = [], suspended = [] \<rparr>"

definition invalidateRouteCache :: "string \<Rightarrow> router_state \<Rightarrow> router_state" where
  "invalidateRouteCache pagesDir s = s\<lparr> routeCache := (routeCache s)(pagesDir := None) \<rparr>"

text \<open>
  A call of \<open>scanRoutes\<close> up to its first \<open>await\<close>. The result is the promise whose value the
  caller receives: the cached one, or the new one the call then awaits and returns the
  value of.
\<close>

definition scanRoutes_call :: "(string \<Rightarrow> string \<Rightarrow> int) \<Rightarrow> string \<Rightarrow> router_state \<Rightarrow> nat \<times> router_state" where
  "scanRoutes_call lc pagesDir s =
     (case routeCache s pagesDir of
        Some cached \<Rightarrow> (entry_promise cached, s)
      | None \<Rightarrow>
          (let p = length (promises s) in
           (p, s\<lparr> promises := promises s @ [(pagesDir, Pending)],
                   routeCache :=
                     (routeCache s)(pagesDir \<mapsto> \<lparr> entry_routes = buildRouteTree lc [], entry_promise = p \<rparr>),
                   suspended := suspended s @ [(pagesDir, p)] \<rparr>)))"

text \<open>The walk of promise \<open>p\<close> ends, having yielded \<open>files\<close>: the promise is fulfilled.\<close>

definition walk_ends :: "(string \<Rightarrow> string \<Rightarrow> int) \<Rightarrow> nat \<Rightarrow> string list \<Rightarrow> router_state \<Rightarrow> router_state" where
  "walk_ends lc p files s =
     (if p < length (promises s) \<and> snd (promises s ! p) = Pending
      then s\<lparr> promises :=
               (promises s)[p := (fst (promises s ! p),
                  Fulfilled (buildRouteTree lc (page_files_loop (fst (promises s ! p)) files [])))] \<rparr>
      else s)"

text \<open>
  A suspended call of \<open>scanRoutes\<close> resumes after \<open>await promise\<close>, once the promise is
  fulfilled: it stores the entry again and returns.
\<close>

fun resume_loop :: "router_state \<Rightarrow> (string \<times> nat) list \<Rightarrow> router_state \<Rightarrow> router_state" where
  "resume_loop s0 [] s = s"
| "resume_loop s0 ((pagesDir, p) # rest) s =
     (case snd (promises s0 ! p) of
        Fulfilled rs \<Rightarrow>
          resume_loop s0 rest
            (s\<lparr> routeCache := (routeCache s)(pagesDir \<mapsto> \<lparr> entry_routes = rs, entry_promise = p \<rparr>),
                suspended := remove1 (pagesDir, p) (suspended s) \<rparr>)
      | Pending \<Rightarrow> resume_loop s0 rest s)"

definition resume_ready :: "router_state \<Rightarrow> router_state" where
  "resume_ready s = resume_loop s (suspended s) s"

text \<open>The events of a run, and the promises the calls of \<open>scanRoutes\<close> hand out in it.\<close>

datatype event = Scan string | Invalidate string | WalkEnds nat "string list"

fun run :: "(string \<Rightarrow> string \<Rightarrow> int) \<Rightarrow> event list \<Rightarrow> router_state \<Rightarrow> nat list \<times> router_state" where
  "run lc [] s = ([], s)"
| "run lc (Scan pagesDir # es) s =
     (case scanRoutes_call lc pagesDir s of
        (p, s') \<Rightarrow> (case run lc es s' of (ps, s'') \<Rightarrow> (p # ps, s'')))"
| "run lc (Invalidate pagesDir # es) s = run lc es (invalidateRouteCache pagesDir s)"
| "run lc (WalkEnds p files # es) s = run lc es (resume_ready (walk_ends lc p files s))"

section \<open>Endpoint routes: \<open>server/api-handler.ts\<close>\<close>

text \<open>The interface \<open>ApiRoute\<close>; \<open>method\<close> is a lower-case verb or \<open>null\<close>.\<close>

datatype ApiRoute =
  ApiRoute (api_pattern: string) (api_file_path: string) (api_method: "string option")

definition HTTP_METHODS :: "string list" where
  "HTTP_METHODS = [''get'', ''post'', ''put'', ''delete'', ''patch'', ''head'', ''options'']"

definition extractHttpMethod :: "string \<Rightarrow> string option" where
  "extractHttpMethod filename =
     (let name_without_ext = strip_ext api_exts filename;
          parts = js_split CHR ''.'' name_without_ext
      in if length parts < 2 then None
         else
           (let method_candidate = toLowerCase (last parts) in
            if method_candidate \<in> set HTTP_METHODS then Some method_candidate else None))"

datatype dir_type = Api | Routes

fun dir_name :: "dir_type \<Rightarrow> string" where
  "dir_name Api = ''api''"
| "dir_name Routes = ''routes''"

text \<open>The callback of \<open>segments.map\<close> in \<open>filePathToRoutePattern\<close>.\<close>

definition api_segment :: "string \<Rightarrow> string" where
  "api_segment segment =
     (case match_catch_all segment of
        Some name \<Rightarrow> '':'' @ name @ ''+''
      | None \<Rightarrow>
          (case match_dynamic segment of
             Some name \<Rightarrow> '':'' @ name
           | None \<Rightarrow> segment))"

text \<open>The last lines of \<open>filePathToRoutePattern\<close>: the pattern built from \<open>route_path\<close>.\<close>

fun prefixed_pattern :: "dir_type \<Rightarrow> string \<Rightarrow> string" where
  "prefixed_pattern Api route_path = (if route_path \<noteq> [] then ''/api/'' @ route_path else ''/api'')"
| "prefixed_pattern Routes route_path = (if route_path \<noteq> [] then ''/'' @ route_path else ''/'')"

definition filePathToRoutePattern :: "string \<Rightarrow> dir_type \<Rightarrow> string" where
  "filePathToRoutePattern file_relative dir =
     (let prefix = ''server/'' @ dir_name dir @ ''/'';
          stripped =
            (if startsWith file_relative prefix then drop (length prefix) file_relative
             else file_relative);
          without_ext = strip_ext api_exts stripped;
          segments = js_split CHR ''/'' without_ext;
          segment_last = last segments;
          parts_last = js_split CHR ''.'' segment_last;
          segments =
            (if length parts_last \<ge> 2 \<and> toLowerCase (last parts_last) \<in> set HTTP_METHODS
             then segments[length segments - 1 := js_join ''.'' (butlast parts_last)]
             else segments);
          segments = (if last segments = ''index'' then butlast segments else segments);
          segments_url = map api_segment segments;
          route_path = js_join ''/'' segments_url
      in prefixed_pattern dir route_path)"

text \<open>
  The parameter object of the endpoint matcher is the literal \<open>{}\<close>, an ordinary object. It
  inherits the accessor \<open>__proto__\<close> of \<open>Object.prototype\<close>, whose setter does nothing when
  the value is neither an object nor \<open>null\<close>: assigning a string to the key \<open>__proto__\<close>
  creates no property. Every other key is set as in a map.
\<close>

type_synonym api_params = "string \<rightharpoonup> string"

definition object_set :: "api_params \<Rightarrow> string \<Rightarrow> string \<Rightarrow> api_params" where
  "object_set obj key v = (if key = ''__proto__'' then obj else obj(key \<mapsto> v))"

text \<open>The loop of the endpoint \<open>matchPattern\<close>: \<open>n\<close> is the length of \<open>segments_pattern\<close>.\<close>

fun api_match_loop :: "nat \<Rightarrow> string list \<Rightarrow> string list \<Rightarrow> nat \<Rightarrow> api_params \<Rightarrow> api_params option" where
  "api_match_loop i [] segments_path n ps = (if n \<noteq> length segments_path then None else Some ps)"
| "api_match_loop i (seg # rest) segments_path n ps =
     (if startsWith seg '':'' \<and> endsWith seg ''+'' then
        (let name = slice_1_m1 seg in
         if i \<ge> length segments_path then None
         else Some (object_set ps name (js_join ''/'' (drop i segments_path))))
      else if startsWith seg '':'' then
        (if i \<ge> length segments_path then None
         else api_match_loop (Suc i) rest segments_path n
                (object_set ps (slice_1 seg) (segments_path ! i)))
      else if i \<ge> length segments_path \<or> seg \<noteq> segments_path ! i then None
      else api_match_loop (Suc i) rest segments_path n ps)"

definition api_matchPattern :: "string \<Rightarrow> string \<Rightarrow> api_params option" where
  "api_matchPattern pat pathname =
     (let segments_pattern = segments_of pat; segments_path = segments_of pathname in
      api_match_loop 0 segments_pattern segments_path (length segments_pattern) Map.empty)"

type_synonym api_match = "ApiRoute \<times> api_params"

text \<open>
  The loop of \<open>matchApiRoute\<close>. \<open>route.method && ...\<close> is false for \<open>null\<close> and for the empty
  string.
\<close>

fun api_routes_loop :: "string \<Rightarrow> string \<Rightarrow> ApiRoute list \<Rightarrow> api_match option" where
  "api_routes_loop pathname method_lower [] = None"
| "api_routes_loop pathname method_lower (route # rest) =
     (if (case api_method route of None \<Rightarrow> False | Some m \<Rightarrow> m \<noteq> [] \<and> m \<noteq> method_lower)
      then api_routes_loop pathname method_lower rest
      else
        (case api_matchPattern (api_pattern route) pathname of
           Some ps \<Rightarrow> Some (route, ps)
         | None \<Rightarrow> api_routes_loop pathname method_lower rest))"

definition matchApiRoute :: "string \<Rightarrow> string \<Rightarrow> ApiRoute list \<Rightarrow> api_match option" where
  "matchApiRoute pathname method routes = api_routes_loop pathname (toLowerCase method) routes"

subsection \<open>\<open>scanApiRoutes\<close>\<close>

fun api_files_loop :: "string \<Rightarrow> dir_type \<Rightarrow> string list \<Rightarrow> ApiRoute list \<Rightarrow> ApiRoute list" where
  "api_files_loop dir type [] routes = routes"
| "api_files_loop dir type (file # files) routes =
     (let file_absolute = path_join [dir, file];
          file_relative = ''server/'' @ dir_name type @ ''/'' @ file;
          filename = basename file;
          pat = filePathToRoutePattern file_relative type;
          method = extractHttpMethod filename
      in api_files_loop dir type files (routes @ [ApiRoute pat file_absolute method]))"

fun api_dirs_loop :: "filesystem \<Rightarrow> (string \<times> dir_type) list \<Rightarrow> ApiRoute list \<Rightarrow> ApiRoute list" where
  "api_dirs_loop fs [] routes = routes"
| "api_dirs_loop fs ((dir, type) # dirs_to_scan) routes =
     (if \<not> existsSync fs dir then api_dirs_loop fs dirs_to_scan routes
      else api_dirs_loop fs dirs_to_scan
             (api_files_loop dir type (glob fs ''**/*.{ts,js}'' dir) routes))"

definition scanApiRoutes :: "filesystem \<Rightarrow> string \<Rightarrow> ApiRoute list" where
  "scanApiRoutes fs root =
     api_dirs_loop fs
       [(path_join [root, ''server'', ''api''], Api),
        (path_join [root, ''server'', ''routes''], Routes)] []"

section \<open>The page matcher's direct pattern match\<close>

text \<open>
  C2. The direct match walks the pattern segment by segment; a static segment is to
  require the same string in the URL. The file \<open>c++.vue\<close> gives the pattern \<open>/c++\<close>, whose
  one segment is static text. \<open>matchPattern\<close> takes any segment that ends in \<open>+\<close> for a
  catch-all, without looking for the leading colon: the URL \<open>/zzz\<close> matches \<open>/c++\<close>, and
  so does the two-segment URL \<open>/zzz/y\<close> although the pattern has one segment and no
  catch-all. The endpoint matcher, which tests the colon too, rejects the same pair.
\<close>

theorem C2_static_segment_ending_in_plus:
  "pattern (fileToRoute ''c++.vue'' ''/p/pages'') = ''/c++''
   \<and> matchPattern ''/zzz'' ''/c++'' = Some [''+'' \<mapsto> Segments [''zzz'']]
   \<and> matchPattern ''/zzz/y'' ''/c++'' = Some [''+'' \<mapsto> Segments [''zzz'', ''y'']]
   \<and> api_matchPattern ''/c++'' ''/zzz'' = None"
proof -
  have "pattern (fileToRoute ''c++.vue'' ''/p/pages'') = ''/c++''"
    by code_simp
  moreover have "matchPattern ''/zzz'' ''/c++'' = Some [''+'' \<mapsto> Segments [''zzz'']]"
    by (simp add: matchPattern_def segments_of_def endsWith_def slice_1_m1_def)
  moreover have "matchPattern ''/zzz/y'' ''/c++'' = Some [''+'' \<mapsto> Segments [''zzz'', ''y'']]"
    by (simp add: matchPattern_def segments_of_def endsWith_def slice_1_m1_def)
  moreover have "api_matchPattern ''/c++'' ''/zzz'' = None"
    by code_simp
  ultimately show ?thesis by blast
qed


section \<open>Notions used in the statements\<close>

text \<open>
  The condition under which the second pass of \<open>buildRouteTree\<close> pushes a route with the
  pattern \<open>pat\<close> to the parent entered under \<open>pattern_parent\<close> (\<open>is_direct_child ||
  is_index_child\<close>, for two different route objects), and the pattern the pushed copy gets.
\<close>

definition nests_under :: "string \<Rightarrow> string \<Rightarrow> bool" where
  "nests_under pat pattern_parent =
     ((startsWith pat (pattern_parent @ ''/'')
       \<and> CHR ''/'' \<notin> set (drop (length (pattern_parent @ ''/'')) pat))
      \<or> pat = pattern_parent)"

definition relative_pattern :: "string \<Rightarrow> string \<Rightarrow> string" where
  "relative_pattern pat pattern_parent =
     (if pat = pattern_parent then [] else drop (length (pattern_parent @ ''/'')) pat)"

text \<open>What holds of every entry of \<open>map_parent\<close>: it names a route of the flat list by its
  index, under that route's pattern, and the route is not the root nor from an index file.\<close>

definition parent_entry :: "Route list \<Rightarrow> string \<times> nat \<Rightarrow> bool" where
  "parent_entry flat e =
     (snd e < length flat \<and> pattern (flat ! snd e) = fst e \<and> fst e \<noteq> ''/''
      \<and> \<not> is_index_file (basename (filePath (flat ! snd e))))"

text \<open>
  The precedence score in the words of the specification: a segment is a catch-all
  \<open>:name+\<close>, an optional catch-all \<open>:name*\<close>, a dynamic segment \<open>:name\<close> or static, and the
  score is the sum of the penalties of the non-empty segments, by position.
\<close>

datatype segment_kind = Static | Dynamic | CatchAll | OptionalCatchAll

definition spec_kind :: "string \<Rightarrow> segment_kind" where
  "spec_kind seg =
     (if startsWith seg '':'' \<and> endsWith seg ''+'' then CatchAll
      else if startsWith seg '':'' \<and> endsWith seg ''*'' then OptionalCatchAll
      else if startsWith seg '':'' then Dynamic
      else Static)"

fun spec_penalty :: "segment_kind \<Rightarrow> nat \<Rightarrow> nat" where
  "spec_penalty Static position = 0"
| "spec_penalty Dynamic position = 100 + position"
| "spec_penalty CatchAll position = 10000 + position"
| "spec_penalty OptionalCatchAll position = 20000 + position"

definition spec_precedence :: "string \<Rightarrow> nat" where
  "spec_precedence pat =
     sum_list (map (\<lambda>(position, seg). spec_penalty (spec_kind seg) position)
                 (enumerate 0 (segments_of pat)))"

text \<open>A segment that ends in \<open>+\<close> or \<open>*\<close> only if it starts with \<open>:\<close>.\<close>

definition marked_segment :: "string \<Rightarrow> bool" where
  "marked_segment seg = (if endsWith seg ''+'' \<or> endsWith seg ''*'' then startsWith seg '':'' else True)"

text \<open>
  The order of the two sorts: a lower score first, and for equal scores what the locale
  comparison puts first or equal. The comparison is consistent when it is total and
  transitive in this sense.
\<close>

definition precedes :: "(string \<Rightarrow> string \<Rightarrow> int) \<Rightarrow> string \<Rightarrow> string \<Rightarrow> bool" where
  "precedes lc a b =
     (routePrecedence a < routePrecedence b
      \<or> (routePrecedence a = routePrecedence b \<and> lc a b \<le> 0))"

definition consistent_comparator :: "(string \<Rightarrow> string \<Rightarrow> int) \<Rightarrow> bool" where
  "consistent_comparator lc =
     ((\<forall>a b. lc a b \<le> 0 \<or> lc b a \<le> 0)
      \<and> (\<forall>a b c. lc a b \<le> 0 \<and> lc b c \<le> 0 \<longrightarrow> lc a c \<le> 0))"

section \<open>Splitting, joining and the bracket forms\<close>

lemma js_split_not_Nil: "js_split c s \<noteq> []"
  by (induction s) (auto split: list.splits)

lemma js_split_parts_free: "p \<in> set (js_split c s) \<Longrightarrow> c \<notin> set p"
  by (induction s arbitrary: p) (auto split: list.splits if_splits)

lemma js_split_append_sep:
  "c \<notin> set x \<Longrightarrow> js_split c (x @ c # s) = x # js_split c s"
  by (induction x) (auto split: list.splits)

lemma js_split_free: "c \<notin> set x \<Longrightarrow> js_split c x = [x]"
  by (induction x) (auto split: list.splits)

lemma js_split_join:
  "segs \<noteq> [] \<Longrightarrow> list_all (\<lambda>s. c \<notin> set s) segs \<Longrightarrow> js_split c (js_join [c] segs) = segs"
proof (induction segs)
  case Nil then show ?case by simp
next
  case (Cons x xs)
  then show ?case by (cases xs) (simp_all add: js_split_free js_split_append_sep)
qed

lemma js_join_split: "js_join [c] (js_split c s) = s"
proof (induction s)
  case Nil then show ?case by simp
next
  case (Cons a s)
  then show ?case
    by (cases "js_split c s"; cases "tl (js_split c s)") (auto simp: js_split_not_Nil split: list.splits)
qed



lemma endsWith_rev: "endsWith t e = (take (length e) (rev t) = rev e)"
proof (cases "length e \<le> length t")
  case True
  have "(drop (length t - length e) t = e) = (rev (drop (length t - length e) t) = rev e)"
    by simp
  also have "rev (drop (length t - length e) t) = take (length e) (rev t)"
    using True by (simp add: rev_drop)
  finally show ?thesis using True by (simp add: endsWith_def)
next
  case False
  then have "length (take (length e) (rev t)) \<noteq> length (rev e)" by simp
  then have "take (length e) (rev t) \<noteq> rev e" by metis
  with False show ?thesis by (simp add: endsWith_def)
qed

lemma strip_ext_page:
  assumes "e \<in> set page_exts"
  shows "strip_ext page_exts (s @ e) = s"
proof -
  from assms consider "e = ''.vue''" | "e = ''.tsx''" | "e = ''.ts''" | "e = ''.jsx''" | "e = ''.js''"
    by (auto simp: page_exts_def)
  then show ?thesis
    by cases (simp_all add: page_exts_def endsWith_rev)
qed

lemma strip_ext_api:
  assumes "e \<in> set api_exts"
  shows "strip_ext api_exts (s @ e) = s"
proof -
  from assms consider "e = ''.ts''" | "e = ''.js''"
    by (auto simp: api_exts_def)
  then show ?thesis
    by cases (simp_all add: api_exts_def endsWith_rev)
qed

lemma startsWith_iff: "startsWith s p = (\<exists>r. s = p @ r)"
  unfolding startsWith_def
  by (metis append_eq_conv_conj append_take_drop_id)

lemma startsWith_append: "startsWith (p @ r) p"
  by (simp add: startsWith_def)

lemma endsWith_iff: "endsWith t e = (\<exists>u. t = u @ e)"
proof
  assume "endsWith t e"
  then have "t = take (length t - length e) t @ e"
    by (metis append_take_drop_id endsWith_def)
  then show "\<exists>u. t = u @ e" ..
next
  assume "\<exists>u. t = u @ e"
  then show "endsWith t e" by (auto simp: endsWith_def)
qed

lemma endsWith_char: "endsWith t [c] = (t \<noteq> [] \<and> last t = c)"
  by (metis endsWith_iff last_snoc snoc_eq_iff_butlast)

lemma word_char_facts:
  "is_word_char c \<Longrightarrow> c \<noteq> CHR ''.'' \<and> c \<noteq> CHR ''['' \<and> c \<noteq> CHR '']'' \<and> c \<noteq> CHR ''/''
     \<and> c \<noteq> CHR '':'' \<and> c \<noteq> CHR ''+'' \<and> c \<noteq> CHR ''*''"
  by (auto simp: is_word_char_def)

lemma match_catch_all_form:
  assumes "is_word name"
  shows "match_catch_all (''[...'' @ name @ '']'') = Some name"
  using assms by (simp add: match_catch_all_def startsWith_def endsWith_def)

lemma match_optional_catch_all_form:
  assumes "is_word name"
  shows "match_optional_catch_all (''[[...'' @ name @ '']]'') = Some name"
  using assms by (simp add: match_optional_catch_all_def startsWith_def endsWith_def)

lemma match_dynamic_form:
  assumes "is_word name"
  shows "match_dynamic (''['' @ name @ '']'') = Some name"
  using assms by (simp add: match_dynamic_def startsWith_def endsWith_def)

lemma match_catch_all_Some:
  assumes "match_catch_all seg = Some name"
  shows "seg = ''[...'' @ name @ '']'' \<and> is_word name"
proof -
  from assms have sw: "startsWith seg ''[...''" and ew: "endsWith seg '']''"
    and nm: "name = butlast (drop 4 seg)" and w: "is_word name"
    by (auto simp: match_catch_all_def Let_def split: if_splits)
  from sw obtain r where r: "seg = ''[...'' @ r" by (auto simp: startsWith_iff)
  from w nm r have "r \<noteq> []" by (auto simp: is_word_def)
  with ew r have "last r = CHR '']''" by (simp add: endsWith_char)
  with \<open>r \<noteq> []\<close> have "r = butlast r @ '']''" by (metis snoc_eq_iff_butlast)
  with r nm w show ?thesis by simp
qed


lemma match_optional_catch_all_Some:
  assumes "match_optional_catch_all seg = Some name"
  shows "seg = ''[[...'' @ name @ '']]'' \<and> is_word name"
proof -
  from assms have sw: "startsWith seg ''[[...''" and ew: "endsWith seg '']]''"
    and nm: "name = drop 5 (take (length seg - 2) seg)" and w: "is_word name"
    by (auto simp: match_optional_catch_all_def Let_def split: if_splits)
  from ew obtain u where u: "seg = u @ '']]''" by (auto simp: endsWith_iff)
  with nm have nm': "name = drop 5 u" by simp
  with w have "5 < length u" by (auto simp: is_word_def)
  with sw u have "take 5 u = ''[[...''" by (simp add: startsWith_def eval_nat_numeral)
  then have "u = ''[[...'' @ drop 5 u" by (metis append_take_drop_id)
  with u nm' w show ?thesis by simp
qed

lemma match_dynamic_Some:
  assumes "match_dynamic seg = Some name"
  shows "seg = ''['' @ name @ '']'' \<and> is_word name"
proof -
  from assms have sw: "startsWith seg ''[''" and ew: "endsWith seg '']''"
    and nm: "name = butlast (tl seg)" and w: "is_word name"
    by (auto simp: match_dynamic_def Let_def split: if_splits)
  from sw obtain r where r: "seg = ''['' @ r" by (auto simp: startsWith_iff)
  from w nm r have "r \<noteq> []" by (auto simp: is_word_def)
  with ew r have "last r = CHR '']''" by (simp add: endsWith_char)
  with \<open>r \<noteq> []\<close> have "r = butlast r @ '']''" by (metis snoc_eq_iff_butlast)
  with r nm w show ?thesis by simp
qed

lemma is_word_hd: "is_word name \<Longrightarrow> \<exists>c cs. name = c # cs \<and> is_word_char c"
  by (cases name) (auto simp: is_word_def)

lemma convert_catch_all:
  assumes "is_word name"
  shows "convert_segment (''[...'' @ name @ '']'') = ('':'' @ name @ ''+'', Some name)"
  using match_catch_all_form [OF assms] by (simp add: convert_segment_def)

lemma convert_optional_catch_all:
  assumes "is_word name"
  shows "convert_segment (''[[...'' @ name @ '']]'') = ('':'' @ name @ ''*'', Some name)"
proof -
  have "match_catch_all (''[[...'' @ name @ '']]'') = None"
    by (simp add: match_catch_all_def startsWith_def)
  with match_optional_catch_all_form [OF assms] show ?thesis
    by (simp add: convert_segment_def)
qed

lemma convert_dynamic:
  assumes "is_word name"
  shows "convert_segment (''['' @ name @ '']'') = ('':'' @ name, Some name)"
proof -
  from assms obtain c cs where n: "name = c # cs" and c: "is_word_char c"
    using is_word_hd by blast
  from c have "c \<noteq> CHR ''.''" "c \<noteq> CHR ''[''" using word_char_facts by blast+
  then have "match_catch_all (''['' @ name @ '']'') = None"
    and "match_optional_catch_all (''['' @ name @ '']'') = None"
    using n by (simp_all add: match_catch_all_def match_optional_catch_all_def startsWith_def)
  with match_dynamic_form [OF assms] show ?thesis
    by (simp add: convert_segment_def)
qed

lemma convert_literal:
  assumes "\<And>name. is_word name \<Longrightarrow>
             seg \<noteq> ''[...'' @ name @ '']'' \<and> seg \<noteq> ''[[...'' @ name @ '']]'' \<and> seg \<noteq> ''['' @ name @ '']''"
  shows "convert_segment seg = (seg, None)"
proof -
  have "match_catch_all seg = None"
    using assms match_catch_all_Some by (cases "match_catch_all seg") blast+
  moreover have "match_optional_catch_all seg = None"
    using assms match_optional_catch_all_Some by (cases "match_optional_catch_all seg") blast+
  moreover have "match_dynamic seg = None"
    using assms match_dynamic_Some by (cases "match_dynamic seg") blast+
  ultimately show ?thesis by (simp add: convert_segment_def)
qed

lemma map_segments_eq:
  "map_segments segs names d =
     (map (fst \<circ> convert_segment) segs,
      names @ List.map_filter (snd \<circ> convert_segment) segs,
      d \<or> List.map_filter (snd \<circ> convert_segment) segs \<noteq> [])"
proof (induction segs arbitrary: names d)
  case Nil
  then show ?case by simp
next
  case (Cons seg segs)
  show ?case
  proof (cases "convert_segment seg")
    case (Pair tok pushed)
    then show ?thesis
      by (cases pushed) (simp_all add: Cons.IH)
  qed
qed


lemma fileToRoute_segments:
  assumes "segs \<noteq> []" and "list_all (\<lambda>s. CHR ''/'' \<notin> set s) segs" and "ext \<in> set page_exts"
  shows "fileToRoute (js_join ''/'' segs @ ext) dir =
           (let kept = (if last segs = ''index'' then butlast segs else segs);
                names = List.map_filter (snd \<circ> convert_segment) kept
            in Route (''/'' @ js_join ''/'' (map (fst \<circ> convert_segment) kept))
                 (path_join [dir, js_join ''/'' segs @ ext]) (names \<noteq> []) names [])"
  using assms
  by (simp add: fileToRoute_def strip_ext_page js_split_join map_segments_eq Let_def)

lemma js_join_snoc:
  "js_join sep (xs @ [x]) = (if xs = [] then x else js_join sep xs @ sep @ x)"
  by (induction sep xs rule: js_join.induct) auto

lemma endsWith_js_join_snoc: "endsWith (sep @ js_join sep (xs @ [x])) x"
  by (auto simp: js_join_snoc endsWith_iff)

lemma word_no_slash: "is_word name \<Longrightarrow> CHR ''/'' \<notin> set name"
  using word_char_facts by (auto simp: is_word_def list_all_iff)

lemma map_filter_literals:
  "list_all (\<lambda>s. convert_segment s = (s, None)) dirs \<Longrightarrow>
     List.map_filter (snd \<circ> convert_segment) dirs = [] \<and> map (fst \<circ> convert_segment) dirs = dirs"
  by (induction dirs) auto

lemma fileToRoute_single_dynamic:
  assumes w: "is_word name"
    and d: "list_all (\<lambda>s. CHR ''/'' \<notin> set s \<and> convert_segment s = (s, None)) dirs"
    and e: "ext \<in> set page_exts"
  shows "fileToRoute (js_join ''/'' (dirs @ [''['' @ name @ '']'']) @ ext) dir =
           Route (''/'' @ js_join ''/'' (dirs @ ['':'' @ name]))
             (path_join [dir, js_join ''/'' (dirs @ [''['' @ name @ '']'']) @ ext]) True [name] []"
proof -
  let ?segs = "dirs @ [''['' @ name @ '']'']"
  from d have d1: "list_all (\<lambda>s. CHR ''/'' \<notin> set s) dirs"
    and d2: "list_all (\<lambda>s. convert_segment s = (s, None)) dirs"
    by (simp_all add: list_all_iff)
  have "?segs \<noteq> []" by simp
  moreover have "list_all (\<lambda>s. CHR ''/'' \<notin> set s) ?segs"
    using d1 word_no_slash [OF w] by simp
  ultimately have "fileToRoute (js_join ''/'' ?segs @ ext) dir =
           (let kept = (if last ?segs = ''index'' then butlast ?segs else ?segs);
                names = List.map_filter (snd \<circ> convert_segment) kept
            in Route (''/'' @ js_join ''/'' (map (fst \<circ> convert_segment) kept))
                 (path_join [dir, js_join ''/'' ?segs @ ext]) (names \<noteq> []) names [])"
    using e by (rule fileToRoute_segments)
  moreover have "last ?segs \<noteq> ''index''" by simp
  moreover have "List.map_filter (snd \<circ> convert_segment) ?segs = [name]"
    using map_filter_literals [OF d2] convert_dynamic [OF w]
    by (simp add: List.map_filter_def)
  moreover have "map (fst \<circ> convert_segment) ?segs = dirs @ ['':'' @ name]"
    using map_filter_literals [OF d2] convert_dynamic [OF w] by simp
  ultimately show ?thesis by (simp add: Let_def)
qed

lemma page_files_loop_append:
  "page_files_loop dir (xs @ ys) flat = page_files_loop dir ys (page_files_loop dir xs flat)"
  by (induction xs arbitrary: flat) auto

lemma page_files_loop_private:
  assumes "list_ex (\<lambda>segment. startsWith segment ''_'') (js_split CHR ''/'' file)"
  shows "page_files_loop dir (before @ file # after) flat = page_files_loop dir (before @ after) flat"
  using assms by (simp add: page_files_loop_append)


section \<open>Deriving a page pattern from a file name\<close>

text \<open>
  C9. For a page file the scanner accepts, each path segment is converted on its own:
  \<open>[...name]\<close> to \<open>:name+\<close>, \<open>[[...name]]\<close> to \<open>:name*\<close>, \<open>[name]\<close> to \<open>:name\<close> (for a
  name of word characters, each pushing the name to \<open>params\<close>), and a segment of no bracket
  form to itself. For the file made of the segments \<open>segs\<close> and a page extension, a last
  segment \<open>index\<close> is dropped and the pattern is \<open>/\<close> followed by the converted segments
  joined by \<open>/\<close>; \<open>isDynamic\<close> says that a name was pushed. So \<open>index\<close> alone gives \<open>/\<close>,
  and literal directories followed by \<open>[name]\<close> give a pattern that ends in \<open>:name\<close>, with
  \<open>isDynamic\<close> true and \<open>params = [name]\<close>. A file with a segment that starts with an
  underscore leaves no trace in the scanned list, wherever it comes in the iteration.
\<close>

theorem C9_page_pattern_derivation:
  "(\<forall>name. is_word name \<longrightarrow>
       convert_segment (''[...'' @ name @ '']'') = ('':'' @ name @ ''+'', Some name)
     \<and> convert_segment (''[[...'' @ name @ '']]'') = ('':'' @ name @ ''*'', Some name)
     \<and> convert_segment (''['' @ name @ '']'') = ('':'' @ name, Some name))
   \<and> (\<forall>seg. (\<forall>name. is_word name \<longrightarrow>
               seg \<noteq> ''[...'' @ name @ '']'' \<and> seg \<noteq> ''[[...'' @ name @ '']]''
               \<and> seg \<noteq> ''['' @ name @ '']'')
           \<longrightarrow> convert_segment seg = (seg, None))
   \<and> (\<forall>segs ext dir.
         segs \<noteq> [] \<and> list_all (\<lambda>s. CHR ''/'' \<notin> set s) segs \<and> ext \<in> set page_exts \<longrightarrow>
         fileToRoute (js_join ''/'' segs @ ext) dir =
           (let kept = (if last segs = ''index'' then butlast segs else segs);
                names = List.map_filter (snd \<circ> convert_segment) kept
            in Route (''/'' @ js_join ''/'' (map (fst \<circ> convert_segment) kept))
                 (path_join [dir, js_join ''/'' segs @ ext]) (names \<noteq> []) names []))
   \<and> (\<forall>ext dir. ext \<in> set page_exts \<longrightarrow> pattern (fileToRoute (''index'' @ ext) dir) = ''/'')
   \<and> (\<forall>dirs name ext dir.
         is_word name
         \<and> list_all (\<lambda>s. CHR ''/'' \<notin> set s \<and> convert_segment s = (s, None)) dirs
         \<and> ext \<in> set page_exts \<longrightarrow>
         (let r = fileToRoute (js_join ''/'' (dirs @ [''['' @ name @ '']'']) @ ext) dir in
          pattern r = ''/'' @ js_join ''/'' (dirs @ ['':'' @ name])
          \<and> endsWith (pattern r) ('':'' @ name) \<and> isDynamic r \<and> params r = [name]))
   \<and> (\<forall>dir before file after flat.
         list_ex (\<lambda>segment. startsWith segment ''_'') (js_split CHR ''/'' file) \<longrightarrow>
         page_files_loop dir (before @ file # after) flat
           = page_files_loop dir (before @ after) flat)"
proof (intro conjI allI impI)
  fix name assume "is_word name"
  then show "convert_segment (''[...'' @ name @ '']'') = ('':'' @ name @ ''+'', Some name)"
    by (rule convert_catch_all)
next
  fix name assume "is_word name"
  then show "convert_segment (''[[...'' @ name @ '']]'') = ('':'' @ name @ ''*'', Some name)"
    by (rule convert_optional_catch_all)
next
  fix name assume "is_word name"
  then show "convert_segment (''['' @ name @ '']'') = ('':'' @ name, Some name)"
    by (rule convert_dynamic)
next
  fix seg
  assume "\<forall>name. is_word name \<longrightarrow>
            seg \<noteq> ''[...'' @ name @ '']'' \<and> seg \<noteq> ''[[...'' @ name @ '']]'' \<and> seg \<noteq> ''['' @ name @ '']''"
  then show "convert_segment seg = (seg, None)"
    by (intro convert_literal) blast
next
  fix segs ext dir
  assume "segs \<noteq> [] \<and> list_all (\<lambda>s. CHR ''/'' \<notin> set s) segs \<and> ext \<in> set page_exts"
  then show "fileToRoute (js_join ''/'' segs @ ext) dir =
           (let kept = (if last segs = ''index'' then butlast segs else segs);
                names = List.map_filter (snd \<circ> convert_segment) kept
            in Route (''/'' @ js_join ''/'' (map (fst \<circ> convert_segment) kept))
                 (path_join [dir, js_join ''/'' segs @ ext]) (names \<noteq> []) names [])"
    using fileToRoute_segments by blast
next
  fix ext dir
  assume "ext \<in> set page_exts"
  then show "pattern (fileToRoute (''index'' @ ext) dir) = ''/''"
    using fileToRoute_segments [of "[''index'']" ext dir] by simp
next
  fix dirs name ext dir
  assume "is_word name
         \<and> list_all (\<lambda>s. CHR ''/'' \<notin> set s \<and> convert_segment s = (s, None)) dirs
         \<and> ext \<in> set page_exts"
  then have "fileToRoute (js_join ''/'' (dirs @ [''['' @ name @ '']'']) @ ext) dir =
           Route (''/'' @ js_join ''/'' (dirs @ ['':'' @ name]))
             (path_join [dir, js_join ''/'' (dirs @ [''['' @ name @ '']'']) @ ext]) True [name] []"
    using fileToRoute_single_dynamic by blast
  then show "let r = fileToRoute (js_join ''/'' (dirs @ [''['' @ name @ '']'']) @ ext) dir in
          pattern r = ''/'' @ js_join ''/'' (dirs @ ['':'' @ name])
          \<and> endsWith (pattern r) ('':'' @ name) \<and> isDynamic r \<and> params r = [name]"
    using endsWith_js_join_snoc [of "''/''" dirs "'':'' @ name"] by (simp add: Let_def)
next
  fix dir before fl after flat
  assume "list_ex (\<lambda>segment. startsWith segment ''_'') (js_split CHR ''/'' fl)"
  then show "page_files_loop dir (before @ fl # after) flat
           = page_files_loop dir (before @ after) flat"
    by (rule page_files_loop_private)
qed


text \<open>The hypotheses of C9 hold, and its conclusions are these, on concrete files.\<close>

theorem C9_page_pattern_derivation_witness:
  "is_word ''slug'' \<and> is_word ''id''
   \<and> convert_segment ''[...slug]'' = ('':slug+'', Some ''slug'')
   \<and> convert_segment ''[[...slug]]'' = ('':slug*'', Some ''slug'')
   \<and> convert_segment ''[id]'' = ('':id'', Some ''id'')
   \<and> convert_segment ''about'' = (''about'', None)
   \<and> fileToRoute ''users/[id]/index.vue'' ''/p/pages''
       = Route ''/users/:id'' ''/p/pages/users/[id]/index.vue'' True [''id''] []
   \<and> pattern (fileToRoute ''index.vue'' ''/p/pages'') = ''/''
   \<and> fileToRoute ''posts/[id].vue'' ''/p/pages''
       = Route ''/posts/:id'' ''/p/pages/posts/[id].vue'' True [''id''] []
   \<and> endsWith (pattern (fileToRoute ''posts/[id].vue'' ''/p/pages'')) '':id''
   \<and> page_files_loop ''/p/pages'' [''about.vue'', ''_layout.vue'', ''index.vue''] []
       = page_files_loop ''/p/pages'' [''about.vue'', ''index.vue''] []"
proof -
  note c = C9_page_pattern_derivation
  have w1: "is_word ''slug''" and w2: "is_word ''id''"
    by (simp_all add: is_word_def is_word_char_def)
  have e: "''.vue'' \<in> set page_exts" by (simp add: page_exts_def)
  from c [THEN conjunct1, rule_format, OF w1]
  have t1: "convert_segment ''[...slug]'' = ('':slug+'', Some ''slug'')"
    and t2: "convert_segment ''[[...slug]]'' = ('':slug*'', Some ''slug'')"
    by simp_all
  from c [THEN conjunct1, rule_format, OF w2]
  have t3: "convert_segment ''[id]'' = ('':id'', Some ''id'')"
    by simp
  have "\<forall>name. is_word name \<longrightarrow>
           ''about'' \<noteq> ''[...'' @ name @ '']'' \<and> ''about'' \<noteq> ''[[...'' @ name @ '']]''
           \<and> ''about'' \<noteq> ''['' @ name @ '']''"
    by simp
  with c [THEN conjunct2, THEN conjunct1, rule_format, of "''about''"]
  have t4: "convert_segment ''about'' = (''about'', None)"
    by blast
  have "convert_segment ''users'' = (''users'', None)" and "convert_segment ''posts'' = (''posts'', None)"
    by (rule convert_literal; simp)+
  note lit = this
  have "fileToRoute (js_join ''/'' [''users'', ''[id]'', ''index''] @ ''.vue'') ''/p/pages'' =
           (let kept = (if last [''users'', ''[id]'', ''index''] = ''index''
                        then butlast [''users'', ''[id]'', ''index''] else [''users'', ''[id]'', ''index'']);
                names = List.map_filter (snd \<circ> convert_segment) kept
            in Route (''/'' @ js_join ''/'' (map (fst \<circ> convert_segment) kept))
                 (path_join [''/p/pages'', js_join ''/'' [''users'', ''[id]'', ''index''] @ ''.vue''])
                 (names \<noteq> []) names [])"
    using e by (intro c [THEN conjunct2, THEN conjunct2, THEN conjunct1, rule_format]) simp
  then have t5: "fileToRoute ''users/[id]/index.vue'' ''/p/pages''
       = Route ''/users/:id'' ''/p/pages/users/[id]/index.vue'' True [''id''] []"
    using t3 lit by (simp add: List.map_filter_def path_join_def path_normalize_def startsWith_def endsWith_def)
  from c [THEN conjunct2, THEN conjunct2, THEN conjunct2, THEN conjunct1, rule_format, OF e]
  have t6: "pattern (fileToRoute ''index.vue'' ''/p/pages'') = ''/''"
    by simp
  have "is_word ''id'' \<and> list_all (\<lambda>s. CHR ''/'' \<notin> set s \<and> convert_segment s = (s, None)) [''posts'']
         \<and> ''.vue'' \<in> set page_exts"
    using w2 e lit by simp
  from c [THEN conjunct2, THEN conjunct2, THEN conjunct2, THEN conjunct2, THEN conjunct1,
          rule_format, OF this, of "''/p/pages''"]
  have t7: "pattern (fileToRoute ''posts/[id].vue'' ''/p/pages'') = ''/posts/:id''
            \<and> endsWith (pattern (fileToRoute ''posts/[id].vue'' ''/p/pages'')) '':id''
            \<and> isDynamic (fileToRoute ''posts/[id].vue'' ''/p/pages'')
            \<and> params (fileToRoute ''posts/[id].vue'' ''/p/pages'') = [''id'']"
    by (simp add: Let_def endsWith_def)
  have t8: "fileToRoute ''posts/[id].vue'' ''/p/pages''
       = Route ''/posts/:id'' ''/p/pages/posts/[id].vue'' True [''id''] []"
    by code_simp
  have "list_ex (\<lambda>segment. startsWith segment ''_'') (js_split CHR ''/'' ''_layout.vue'')"
    by (simp add: startsWith_def)
  from c [THEN conjunct2, THEN conjunct2, THEN conjunct2, THEN conjunct2, THEN conjunct2,
          rule_format, OF this, of "''/p/pages''" "[''about.vue'']" "[''index.vue'']" "[]"]
  have t9: "page_files_loop ''/p/pages'' [''about.vue'', ''_layout.vue'', ''index.vue''] []
       = page_files_loop ''/p/pages'' [''about.vue'', ''index.vue''] []"
    by simp
  note t7b = t7 [THEN conjunct2, THEN conjunct1]
  show ?thesis
    by (intro conjI) (rule w1 w2 t1 t2 t3 t4 t5 t6 t8 t7b t9)+
qed


section \<open>Deriving an endpoint pattern and method from a file name\<close>

lemma js_split_snoc: "c \<notin> set v \<Longrightarrow> js_split c (s @ c # v) = js_split c s @ [v]"
  by (induction s) (auto simp: js_split_free js_split_not_Nil split: list.splits)

lemma toLowerChar_dot: "(toLowerChar c = CHR ''.'') = (c = CHR ''.'')"
  by (auto simp: toLowerChar_def split: option.splits if_splits)

lemma toLowerCase_dot: "(CHR ''.'' \<in> set (toLowerCase s)) = (CHR ''.'' \<in> set s)"
proof -
  have "\<And>c. (CHR ''.'' = toLowerChar c) = (c = CHR ''.'')"
    using toLowerChar_dot by (metis (full_types))
  then show ?thesis
    by (induction s) (auto simp: toLowerCase_def)
qed

lemma verb_no_dot: "toLowerCase verb \<in> set HTTP_METHODS \<Longrightarrow> CHR ''.'' \<notin> set verb"
proof -
  assume "toLowerCase verb \<in> set HTTP_METHODS"
  then have "CHR ''.'' \<notin> set (toLowerCase verb)"
    by (auto simp: HTTP_METHODS_def)
  then show ?thesis by (simp add: toLowerCase_dot)
qed

lemma list_update_last: "xs \<noteq> [] \<Longrightarrow> xs[length xs - 1 := x] = butlast xs @ [x]"
  by (induction xs rule: rev_induct) (simp_all add: list_update_append)


lemma js_split_last_form:
  assumes "2 \<le> length (js_split c s)"
  shows "s = js_join [c] (butlast (js_split c s)) @ [c] @ last (js_split c s)"
proof -
  let ?parts = "js_split c s"
  from assms have ne: "?parts \<noteq> []" and bne: "butlast ?parts \<noteq> []"
    by (auto simp: butlast_conv_take)
  have "s = js_join [c] (butlast ?parts @ [last ?parts])"
    using ne by (simp add: js_join_split)
  also have "\<dots> = js_join [c] (butlast ?parts) @ [c] @ last ?parts"
    using bne by (simp add: js_join_snoc)
  finally show ?thesis .
qed

lemma split_verb_suffix:
  assumes "toLowerCase verb \<in> set HTTP_METHODS"
  shows "js_split CHR ''.'' (stem @ ''.'' @ verb) = js_split CHR ''.'' stem @ [verb]"
  using verb_no_dot [OF assms] by (simp add: js_split_snoc)

lemma no_verb_suffix:
  assumes "\<And>stem verb. seg = stem @ ''.'' @ verb \<Longrightarrow> toLowerCase verb \<notin> set HTTP_METHODS"
  shows "\<not> (2 \<le> length (js_split CHR ''.'' seg)
            \<and> toLowerCase (last (js_split CHR ''.'' seg)) \<in> set HTTP_METHODS)"
  using assms js_split_last_form [of "CHR ''.''" seg] by blast

lemma filePathToRoutePattern_segments:
  assumes "segs \<noteq> []" and "list_all (\<lambda>s. CHR ''/'' \<notin> set s) segs" and "ext \<in> set api_exts"
  shows "filePathToRoutePattern (''server/'' @ dir_name kind @ ''/'' @ js_join ''/'' segs @ ext) kind =
     (let parts_last = js_split CHR ''.'' (last segs);
          segs1 = (if 2 \<le> length parts_last \<and> toLowerCase (last parts_last) \<in> set HTTP_METHODS
                   then butlast segs @ [js_join ''.'' (butlast parts_last)] else segs);
          segs2 = (if last segs1 = ''index'' then butlast segs1 else segs1)
      in prefixed_pattern kind (js_join ''/'' (map api_segment segs2)))"
proof -
  let ?prefix = "''server/'' @ dir_name kind @ ''/''"
  have a: "''server/'' @ dir_name kind @ ''/'' @ js_join ''/'' segs @ ext = ?prefix @ (js_join ''/'' segs @ ext)"
    by simp
  have b: "startsWith (?prefix @ (js_join ''/'' segs @ ext)) ?prefix"
    by (rule startsWith_append)
  have c: "drop (length ?prefix) (?prefix @ (js_join ''/'' segs @ ext)) = js_join ''/'' segs @ ext"
    by simp
  have d: "strip_ext api_exts (js_join ''/'' segs @ ext) = js_join ''/'' segs"
    using assms(3) by (rule strip_ext_api)
  have e: "js_split CHR ''/'' (js_join ''/'' segs) = segs"
    using assms(1,2) by (rule js_split_join)
  show ?thesis
    unfolding a filePathToRoutePattern_def Let_def
    by (simp only: b c d e if_True list_update_last [OF assms(1)])
qed


lemma pattern_with_verb:
  assumes s: "list_all (\<lambda>s. CHR ''/'' \<notin> set s) (dirs @ [stem @ ''.'' @ verb])"
    and e: "ext \<in> set api_exts" and v: "toLowerCase verb \<in> set HTTP_METHODS"
  shows "filePathToRoutePattern
           (''server/'' @ dir_name kind @ ''/'' @ js_join ''/'' (dirs @ [stem @ ''.'' @ verb]) @ ext) kind
         = prefixed_pattern kind
             (js_join ''/'' (map api_segment (if stem = ''index'' then dirs else dirs @ [stem])))"
proof -
  let ?segs = "dirs @ [stem @ ''.'' @ verb]"
  have ne: "?segs \<noteq> []" by simp
  have parts: "js_split CHR ''.'' (last ?segs) = js_split CHR ''.'' stem @ [verb]"
    using split_verb_suffix [OF v] by simp
  have two: "2 \<le> length (js_split CHR ''.'' stem @ [verb])"
    using js_split_not_Nil [of "CHR ''.''" stem] by (cases "js_split CHR ''.'' stem") simp_all
  have stem: "js_join ''.'' (js_split CHR ''.'' stem) = stem"
    by (rule js_join_split)
  show ?thesis
    unfolding filePathToRoutePattern_segments [OF ne s e] parts Let_def
    using two v stem by simp
qed

lemma pattern_without_verb:
  assumes s: "list_all (\<lambda>s. CHR ''/'' \<notin> set s) (dirs @ [seg])"
    and e: "ext \<in> set api_exts"
    and v: "\<And>stem verb. seg = stem @ ''.'' @ verb \<Longrightarrow> toLowerCase verb \<notin> set HTTP_METHODS"
  shows "filePathToRoutePattern
           (''server/'' @ dir_name kind @ ''/'' @ js_join ''/'' (dirs @ [seg]) @ ext) kind
         = prefixed_pattern kind
             (js_join ''/'' (map api_segment (if seg = ''index'' then dirs else dirs @ [seg])))"
proof -
  let ?segs = "dirs @ [seg]"
  have ne: "?segs \<noteq> []" by simp
  have nv: "(2 \<le> length (js_split CHR ''.'' (last ?segs))
            \<and> toLowerCase (last (js_split CHR ''.'' (last ?segs))) \<in> set HTTP_METHODS) = False"
    using no_verb_suffix [of seg] v by simp
  show ?thesis
    unfolding filePathToRoutePattern_segments [OF ne s e] Let_def nv
    by simp
qed

lemma api_segment_dynamic:
  assumes "is_word name"
  shows "api_segment (''['' @ name @ '']'') = '':'' @ name"
  using convert_dynamic [OF assms]
  by (auto simp: api_segment_def convert_segment_def split: option.splits)

lemma api_segment_catch_all:
  assumes "is_word name"
  shows "api_segment (''[...'' @ name @ '']'') = '':'' @ name @ ''+''"
  using match_catch_all_form [OF assms] by (simp add: api_segment_def)

lemma api_segment_literal:
  assumes "\<And>name. is_word name \<Longrightarrow> seg \<noteq> ''[...'' @ name @ '']'' \<and> seg \<noteq> ''['' @ name @ '']''"
  shows "api_segment seg = seg"
proof -
  have "match_catch_all seg = None"
    using assms match_catch_all_Some by (cases "match_catch_all seg") blast+
  moreover have "match_dynamic seg = None"
    using assms match_dynamic_Some by (cases "match_dynamic seg") blast+
  ultimately show ?thesis by (simp add: api_segment_def)
qed

lemma api_segment_optional_form:
  assumes "is_word name"
  shows "api_segment (''[[...'' @ name @ '']]'') = ''[[...'' @ name @ '']]''"
proof (rule api_segment_literal)
  fix n assume "is_word n"
  then obtain c cs where n: "n = c # cs" and c: "is_word_char c"
    using is_word_hd by blast
  from c have "c \<noteq> CHR ''[''" using word_char_facts by blast
  with n show "''[[...'' @ name @ '']]'' \<noteq> ''[...'' @ n @ '']'' \<and> ''[[...'' @ name @ '']]'' \<noteq> ''['' @ n @ '']''"
    by simp
qed

lemma extractHttpMethod_verb:
  assumes e: "ext \<in> set api_exts" and v: "toLowerCase verb \<in> set HTTP_METHODS"
  shows "extractHttpMethod (stem @ ''.'' @ verb @ ext) = Some (toLowerCase verb)"
proof -
  have "strip_ext api_exts ((stem @ ''.'' @ verb) @ ext) = stem @ ''.'' @ verb"
    using e by (rule strip_ext_api)
  then have a: "strip_ext api_exts (stem @ ''.'' @ verb @ ext) = stem @ ''.'' @ verb"
    by simp
  have two: "\<not> length (js_split CHR ''.'' stem @ [verb]) < 2"
    using js_split_not_Nil [of "CHR ''.''" stem] by (cases "js_split CHR ''.'' stem") simp_all
  show ?thesis
    unfolding extractHttpMethod_def a split_verb_suffix [OF v] Let_def
    using two v by simp
qed

lemma extractHttpMethod_none:
  assumes e: "ext \<in> set api_exts"
    and v: "\<And>stem verb. name = stem @ ''.'' @ verb \<Longrightarrow> toLowerCase verb \<notin> set HTTP_METHODS"
  shows "extractHttpMethod (name @ ext) = None"
proof -
  have a: "strip_ext api_exts (name @ ext) = name"
    using e by (rule strip_ext_api)
  have nv: "(2 \<le> length (js_split CHR ''.'' name)
            \<and> toLowerCase (last (js_split CHR ''.'' name)) \<in> set HTTP_METHODS) = False"
    using no_verb_suffix [of name] v by simp
  then show ?thesis
    unfolding extractHttpMethod_def a Let_def
    by (auto simp: not_less)
qed

lemma extractHttpMethod_recognized: "extractHttpMethod filename = Some m \<Longrightarrow> m \<in> set HTTP_METHODS"
  by (auto simp: extractHttpMethod_def Let_def split: if_splits)


text \<open>
  C8. For the file \<open>server/<kind>/<segments joined by />.<ts or js>\<close>, the deriver strips the
  directory prefix of the kind and the extension. When the last segment is
  \<open>stem.verb\<close> with \<open>verb\<close>, in any case, one of \<open>HTTP_METHODS\<close>, the verb goes and \<open>stem\<close> is the
  last segment; otherwise the last segment stays whole. A last segment \<open>index\<close> is then
  dropped. Each remaining segment is converted: \<open>[name]\<close> to \<open>:name\<close>, \<open>[...name]\<close> to
  \<open>:name+\<close>, anything else, \<open>[[...name]]\<close> included, to itself. The segments joined by \<open>/\<close>
  come after \<open>/api/\<close> for the kind \<open>api\<close> and after \<open>/\<close> for the kind \<open>routes\<close>; when nothing
  remains the pattern is \<open>/api\<close>, and \<open>/\<close>. \<open>extractHttpMethod\<close> returns the verb of
  \<open>stem.verb.<ts or js>\<close> in lower case, \<open>null\<close> for a name with no such verb, and never
  anything but a verb of \<open>HTTP_METHODS\<close>.
\<close>

theorem C8_endpoint_pattern_derivation:
  "(\<forall>kind dirs stem verb ext.
      list_all (\<lambda>s. CHR ''/'' \<notin> set s) (dirs @ [stem @ ''.'' @ verb])
      \<and> ext \<in> set api_exts \<and> toLowerCase verb \<in> set HTTP_METHODS \<longrightarrow>
      filePathToRoutePattern
        (''server/'' @ dir_name kind @ ''/'' @ js_join ''/'' (dirs @ [stem @ ''.'' @ verb]) @ ext) kind
      = prefixed_pattern kind
          (js_join ''/'' (map api_segment (if stem = ''index'' then dirs else dirs @ [stem]))))
   \<and> (\<forall>kind dirs seg ext.
      list_all (\<lambda>s. CHR ''/'' \<notin> set s) (dirs @ [seg]) \<and> ext \<in> set api_exts
      \<and> (\<forall>stem verb. seg = stem @ ''.'' @ verb \<longrightarrow> toLowerCase verb \<notin> set HTTP_METHODS) \<longrightarrow>
      filePathToRoutePattern
        (''server/'' @ dir_name kind @ ''/'' @ js_join ''/'' (dirs @ [seg]) @ ext) kind
      = prefixed_pattern kind
          (js_join ''/'' (map api_segment (if seg = ''index'' then dirs else dirs @ [seg]))))
   \<and> (\<forall>name. is_word name \<longrightarrow>
         api_segment (''['' @ name @ '']'') = '':'' @ name
       \<and> api_segment (''[...'' @ name @ '']'') = '':'' @ name @ ''+''
       \<and> api_segment (''[[...'' @ name @ '']]'') = ''[[...'' @ name @ '']]'')
   \<and> (\<forall>seg. (\<forall>name. is_word name \<longrightarrow> seg \<noteq> ''[...'' @ name @ '']'' \<and> seg \<noteq> ''['' @ name @ '']'')
         \<longrightarrow> api_segment seg = seg)
   \<and> (\<forall>p. prefixed_pattern Api p = (if p = [] then ''/api'' else ''/api/'' @ p)
        \<and> prefixed_pattern Routes p = (if p = [] then ''/'' else ''/'' @ p))
   \<and> (\<forall>stem verb ext.
         ext \<in> set api_exts \<and> toLowerCase verb \<in> set HTTP_METHODS \<longrightarrow>
         extractHttpMethod (stem @ ''.'' @ verb @ ext) = Some (toLowerCase verb))
   \<and> (\<forall>name ext.
         ext \<in> set api_exts
         \<and> (\<forall>stem verb. name = stem @ ''.'' @ verb \<longrightarrow> toLowerCase verb \<notin> set HTTP_METHODS) \<longrightarrow>
         extractHttpMethod (name @ ext) = None)
   \<and> (\<forall>filename m. extractHttpMethod filename = Some m \<longrightarrow> m \<in> set HTTP_METHODS)"
proof (intro conjI allI impI)
  fix kind dirs stem verb ext
  assume "list_all (\<lambda>s. CHR ''/'' \<notin> set s) (dirs @ [stem @ ''.'' @ verb])
      \<and> ext \<in> set api_exts \<and> toLowerCase verb \<in> set HTTP_METHODS"
  then show "filePathToRoutePattern
        (''server/'' @ dir_name kind @ ''/'' @ js_join ''/'' (dirs @ [stem @ ''.'' @ verb]) @ ext) kind
      = prefixed_pattern kind
          (js_join ''/'' (map api_segment (if stem = ''index'' then dirs else dirs @ [stem])))"
    using pattern_with_verb by blast
next
  fix kind dirs seg ext
  assume "list_all (\<lambda>s. CHR ''/'' \<notin> set s) (dirs @ [seg]) \<and> ext \<in> set api_exts
      \<and> (\<forall>stem verb. seg = stem @ ''.'' @ verb \<longrightarrow> toLowerCase verb \<notin> set HTTP_METHODS)"
  then show "filePathToRoutePattern
        (''server/'' @ dir_name kind @ ''/'' @ js_join ''/'' (dirs @ [seg]) @ ext) kind
      = prefixed_pattern kind
          (js_join ''/'' (map api_segment (if seg = ''index'' then dirs else dirs @ [seg])))"
    by (intro pattern_without_verb) blast+
next
  fix name assume "is_word name"
  then show "api_segment (''['' @ name @ '']'') = '':'' @ name"
    by (rule api_segment_dynamic)
next
  fix name assume "is_word name"
  then show "api_segment (''[...'' @ name @ '']'') = '':'' @ name @ ''+''"
    by (rule api_segment_catch_all)
next
  fix name assume "is_word name"
  then show "api_segment (''[[...'' @ name @ '']]'') = ''[[...'' @ name @ '']]''"
    by (rule api_segment_optional_form)
next
  fix seg
  assume "\<forall>name. is_word name \<longrightarrow> seg \<noteq> ''[...'' @ name @ '']'' \<and> seg \<noteq> ''['' @ name @ '']''"
  then show "api_segment seg = seg"
    by (intro api_segment_literal) blast
next
  fix p show "prefixed_pattern Api p = (if p = [] then ''/api'' else ''/api/'' @ p)" by simp
next
  fix p show "prefixed_pattern Routes p = (if p = [] then ''/'' else ''/'' @ p)" by simp
next
  fix stem verb ext
  assume "ext \<in> set api_exts \<and> toLowerCase verb \<in> set HTTP_METHODS"
  then show "extractHttpMethod (stem @ ''.'' @ verb @ ext) = Some (toLowerCase verb)"
    using extractHttpMethod_verb by blast
next
  fix name ext
  assume "ext \<in> set api_exts
         \<and> (\<forall>stem verb. name = stem @ ''.'' @ verb \<longrightarrow> toLowerCase verb \<notin> set HTTP_METHODS)"
  then show "extractHttpMethod (name @ ext) = None"
    by (intro extractHttpMethod_none) blast+
next
  fix filename m
  assume "extractHttpMethod filename = Some m"
  then show "m \<in> set HTTP_METHODS" by (rule extractHttpMethod_recognized)
qed


lemma no_dot_no_verb: "c \<notin> set seg \<Longrightarrow> seg \<noteq> stem @ c # verb"
  by auto

text \<open>The hypotheses of C8 hold, and its conclusions are these, on the files of the tests.\<close>

theorem C8_endpoint_pattern_derivation_witness:
  "toLowerCase ''GET'' \<in> set HTTP_METHODS \<and> ''.ts'' \<in> set api_exts \<and> is_word ''id''
   \<and> filePathToRoutePattern ''server/api/users/[id].GET.ts'' Api = ''/api/users/:id''
   \<and> filePathToRoutePattern ''server/api/index.GET.ts'' Api = ''/api''
   \<and> filePathToRoutePattern ''server/api/users/profile.ts'' Api = ''/api/users/profile''
   \<and> filePathToRoutePattern ''server/routes/health.ts'' Routes = ''/health''
   \<and> filePathToRoutePattern ''server/routes/index.ts'' Routes = ''/''
   \<and> api_segment ''[id]'' = '':id'' \<and> api_segment ''[...id]'' = '':id+''
   \<and> api_segment ''[[...id]]'' = ''[[...id]]'' \<and> api_segment ''users'' = ''users''
   \<and> extractHttpMethod ''users.GET.ts'' = Some ''get''
   \<and> extractHttpMethod ''users.ts'' = None
   \<and> ''get'' \<in> set HTTP_METHODS"
proof -
  note c = C8_endpoint_pattern_derivation
  note c1 = c [THEN conjunct1, rule_format]
  note c2 = c [THEN conjunct2, THEN conjunct1, rule_format]
  note c3 = c [THEN conjunct2, THEN conjunct2, THEN conjunct1, rule_format]
  note c4 = c [THEN conjunct2, THEN conjunct2, THEN conjunct2, THEN conjunct1, rule_format]
  note c5 = c [THEN conjunct2, THEN conjunct2, THEN conjunct2, THEN conjunct2, THEN conjunct1,
               rule_format]
  note c6 = c [THEN conjunct2, THEN conjunct2, THEN conjunct2, THEN conjunct2, THEN conjunct2,
               THEN conjunct1, rule_format]
  note c7 = c [THEN conjunct2, THEN conjunct2, THEN conjunct2, THEN conjunct2, THEN conjunct2,
               THEN conjunct2, THEN conjunct1, rule_format]
  note c8 = c [THEN conjunct2, THEN conjunct2, THEN conjunct2, THEN conjunct2, THEN conjunct2,
               THEN conjunct2, THEN conjunct2, rule_format]
  have v: "toLowerCase ''GET'' \<in> set HTTP_METHODS"
    by (simp add: toLowerCase_def toLowerChar_def HTTP_METHODS_def)
  have e: "''.ts'' \<in> set api_exts" by (simp add: api_exts_def)
  have w: "is_word ''id''" by (simp add: is_word_def is_word_char_def)
  note seg = c3 [OF w, simplified]
  have lit: "api_segment ''users'' = ''users''"
    by (rule c4) simp
  have "filePathToRoutePattern
          (''server/'' @ dir_name Api @ ''/'' @ js_join ''/'' ([''users''] @ [''[id]'' @ ''.'' @ ''GET'']) @ ''.ts'') Api
        = prefixed_pattern Api
            (js_join ''/'' (map api_segment (if ''[id]'' = ''index'' then [''users''] else [''users''] @ [''[id]''])))"
    using v e by (intro c1) simp
  then have t1: "filePathToRoutePattern ''server/api/users/[id].GET.ts'' Api = ''/api/users/:id''"
    using seg lit by simp
  have "filePathToRoutePattern
          (''server/'' @ dir_name Api @ ''/'' @ js_join ''/'' ([] @ [''index'' @ ''.'' @ ''GET'']) @ ''.ts'') Api
        = prefixed_pattern Api
            (js_join ''/'' (map api_segment (if ''index'' = ''index'' then [] else [] @ [''index''])))"
    using v e by (intro c1) simp
  then have t2: "filePathToRoutePattern ''server/api/index.GET.ts'' Api = ''/api''"
    by simp
  have "filePathToRoutePattern
          (''server/'' @ dir_name Api @ ''/'' @ js_join ''/'' ([''users''] @ [''profile'']) @ ''.ts'') Api
        = prefixed_pattern Api
            (js_join ''/'' (map api_segment (if ''profile'' = ''index'' then [''users''] else [''users''] @ [''profile''])))"
    using e by (intro c2 conjI allI impI) (simp_all add: no_dot_no_verb)
  moreover have "api_segment ''profile'' = ''profile''"
    by (rule c4) simp
  ultimately have t3: "filePathToRoutePattern ''server/api/users/profile.ts'' Api = ''/api/users/profile''"
    using lit by simp
  have "filePathToRoutePattern
          (''server/'' @ dir_name Routes @ ''/'' @ js_join ''/'' ([] @ [''health'']) @ ''.ts'') Routes
        = prefixed_pattern Routes
            (js_join ''/'' (map api_segment (if ''health'' = ''index'' then [] else [] @ [''health''])))"
    using e by (intro c2 conjI allI impI) (simp_all add: no_dot_no_verb)
  moreover have "api_segment ''health'' = ''health''"
    by (rule c4) simp
  ultimately have t4: "filePathToRoutePattern ''server/routes/health.ts'' Routes = ''/health''"
    by simp
  have "filePathToRoutePattern
          (''server/'' @ dir_name Routes @ ''/'' @ js_join ''/'' ([] @ [''index'']) @ ''.ts'') Routes
        = prefixed_pattern Routes
            (js_join ''/'' (map api_segment (if ''index'' = ''index'' then [] else [] @ [''index''])))"
    using e by (intro c2 conjI allI impI) (simp_all add: no_dot_no_verb)
  then have t5: "filePathToRoutePattern ''server/routes/index.ts'' Routes = ''/''"
    using c5 [of "[]"] by simp
  have "extractHttpMethod (''users'' @ ''.'' @ ''GET'' @ ''.ts'') = Some (toLowerCase ''GET'')"
    using e v by (intro c6) simp
  then have t6: "extractHttpMethod ''users.GET.ts'' = Some ''get''"
    by (simp add: toLowerCase_def toLowerChar_def)
  have "extractHttpMethod (''users'' @ ''.ts'') = None"
    using e by (intro c7 conjI allI impI) (simp_all add: no_dot_no_verb)
  then have t7: "extractHttpMethod ''users.ts'' = None" by simp
  from c8 [OF t6] have t8: "''get'' \<in> set HTTP_METHODS" .
  show ?thesis
    using v e w t1 t2 t3 t4 t5 seg lit t6 t7 t8 by (intro conjI) simp_all
qed


section \<open>Normalising the URL\<close>

lemma uri_tokens_plain: "CHR ''%'' \<notin> set s \<Longrightarrow> uri_tokens s = Some (map Plain s)"
  by (induction s) auto

lemma decode_tokens_plain: "decode_tokens (map Plain s) = Some s"
  by (induction s) auto

lemma decodeURIComponent_plain: "CHR ''%'' \<notin> set s \<Longrightarrow> decodeURIComponent s = Inr s"
  by (simp add: decodeURIComponent_def uri_tokens_plain decode_tokens_plain)










section \<open>Matching a route that has children\<close>

















section \<open>Scanning a directory that does not exist\<close>

lemma buildRouteTree_empty:
  "buildRouteTree lc [] = \<lparr> flat_routes = [], routes_top = [], arrays = [] \<rparr>"
  by (simp add: buildRouteTree_def array_sort_def)

lemma route_values_empty: "route_values fuel (buildRouteTree lc []) = Some []"
  by (simp add: buildRouteTree_empty route_values_def)

text \<open>
  C10. When the page directory does not exist, \<open>scanPageRoutes\<close> returns the empty route
  list: no top-level route, no route object at all. When an endpoint directory does not
  exist, \<open>scanApiRoutes\<close> skips it: with both missing the result is the empty list, and with
  one missing the result is what the other directory gives. Neither scan has a failure
  among its results.
\<close>

theorem C10_missing_directory:
  "(\<forall>lc fs pagesDir. \<not> existsSync fs pagesDir \<longrightarrow>
      scanPageRoutes lc fs pagesDir = \<lparr> flat_routes = [], routes_top = [], arrays = [] \<rparr>
      \<and> (\<forall>fuel. route_values fuel (scanPageRoutes lc fs pagesDir) = Some []))
   \<and> (\<forall>fs root.
        \<not> existsSync fs (path_join [root, ''server'', ''api''])
        \<and> \<not> existsSync fs (path_join [root, ''server'', ''routes'']) \<longrightarrow>
        scanApiRoutes fs root = [])
   \<and> (\<forall>fs root. \<not> existsSync fs (path_join [root, ''server'', ''api'']) \<longrightarrow>
        scanApiRoutes fs root =
          api_dirs_loop fs [(path_join [root, ''server'', ''routes''], Routes)] [])
   \<and> (\<forall>fs root. \<not> existsSync fs (path_join [root, ''server'', ''routes'']) \<longrightarrow>
        scanApiRoutes fs root =
          api_dirs_loop fs [(path_join [root, ''server'', ''api''], Api)] [])"
proof (intro conjI allI impI)
  fix lc fs pagesDir
  assume m: "\<not> existsSync fs pagesDir"
  then have g: "glob fs ''**/*.{vue,tsx,ts,jsx,js}'' pagesDir = []"
    by (simp add: existsSync_def glob_def)
  then show s: "scanPageRoutes lc fs pagesDir = \<lparr> flat_routes = [], routes_top = [], arrays = [] \<rparr>"
    by (simp add: scanPageRoutes_def buildRouteTree_empty)
  fix fuel
  show "route_values fuel (scanPageRoutes lc fs pagesDir) = Some []"
    using g by (simp add: scanPageRoutes_def route_values_empty)
next
  fix fs root
  assume "\<not> existsSync fs (path_join [root, ''server'', ''api''])
        \<and> \<not> existsSync fs (path_join [root, ''server'', ''routes''])"
  then show "scanApiRoutes fs root = []"
    by (simp add: scanApiRoutes_def)
next
  fix fs root
  assume "\<not> existsSync fs (path_join [root, ''server'', ''api''])"
  then show "scanApiRoutes fs root =
          api_dirs_loop fs [(path_join [root, ''server'', ''routes''], Routes)] []"
    by (simp add: scanApiRoutes_def)
next
  fix fs root
  assume "\<not> existsSync fs (path_join [root, ''server'', ''routes''])"
  then show "scanApiRoutes fs root =
          api_dirs_loop fs [(path_join [root, ''server'', ''api''], Api)] []"
    by (simp add: scanApiRoutes_def)
qed

text \<open>
  The hypotheses of C10 hold on the empty file system, and on the one whose only directory
  is \<open>/r/server/api\<close>, with one file.
\<close>

theorem C10_missing_directory_witness:
  "\<not> existsSync (\<lambda>d. None) ''/r/pages''
   \<and> scanPageRoutes code_unit_compare (\<lambda>d. None) ''/r/pages''
       = \<lparr> flat_routes = [], routes_top = [], arrays = [] \<rparr>
   \<and> route_values 1 (scanPageRoutes code_unit_compare (\<lambda>d. None) ''/r/pages'') = Some []
   \<and> \<not> existsSync (\<lambda>d. None) (path_join [''/r'', ''server'', ''api''])
   \<and> \<not> existsSync (\<lambda>d. None) (path_join [''/r'', ''server'', ''routes''])
   \<and> scanApiRoutes (\<lambda>d. None) ''/r'' = []
   \<and> \<not> existsSync (\<lambda>d. if d = ''/r/server/api'' then Some (\<lambda>p. [''users.get.ts'']) else None)
         (path_join [''/r'', ''server'', ''routes''])
   \<and> scanApiRoutes (\<lambda>d. if d = ''/r/server/api'' then Some (\<lambda>p. [''users.get.ts'']) else None) ''/r''
       = [ApiRoute ''/api/users'' ''/r/server/api/users.get.ts'' (Some ''get'')]"
proof -
  let ?none = "(\<lambda>d. None) :: filesystem"
  let ?fs = "(\<lambda>d. if d = ''/r/server/api'' then Some (\<lambda>p. [''users.get.ts'']) else None) :: filesystem"
  note c = C10_missing_directory
  have h1: "\<not> existsSync ?none ''/r/pages''" by (simp add: existsSync_def)
  note t1 = c [THEN conjunct1, rule_format, OF h1, of code_unit_compare, THEN conjunct1]
  note t2 = c [THEN conjunct1, rule_format, OF h1, of code_unit_compare, THEN conjunct2, rule_format, of 1]
  have h2: "\<not> existsSync ?none (path_join [''/r'', ''server'', ''api''])"
    and h3: "\<not> existsSync ?none (path_join [''/r'', ''server'', ''routes''])"
    by (simp_all add: existsSync_def)
  from h2 h3 have t3: "scanApiRoutes ?none ''/r'' = []"
    using c [THEN conjunct2, THEN conjunct1, rule_format, of ?none "''/r''"] by blast
  have pj: "path_join [''/r'', ''server'', ''routes''] = ''/r/server/routes''"
    "path_join [''/r'', ''server'', ''api''] = ''/r/server/api''"
    by code_simp+
  have h4: "\<not> existsSync ?fs (path_join [''/r'', ''server'', ''routes''])"
    by (simp add: existsSync_def pj)
  have "scanApiRoutes ?fs ''/r'' = api_dirs_loop ?fs [(path_join [''/r'', ''server'', ''api''], Api)] []"
    using c [THEN conjunct2, THEN conjunct2, THEN conjunct2, rule_format, OF h4] .
  also have "\<dots> = api_files_loop ''/r/server/api'' Api [''users.get.ts''] []"
    by (simp add: pj existsSync_def glob_def)
  also have "\<dots> = [ApiRoute ''/api/users'' ''/r/server/api/users.get.ts'' (Some ''get'')]"
    by code_simp
  finally have t4: "scanApiRoutes ?fs ''/r''
       = [ApiRoute ''/api/users'' ''/r/server/api/users.get.ts'' (Some ''get'')]" .
  show ?thesis
    by (intro conjI) (rule h1 t1 t2 h2 h3 t3 h4 t4)+
qed


section \<open>The endpoint matcher\<close>

lemma api_routes_loop_skip:
  assumes "api_method route = Some m" and "m \<noteq> []" and "m \<noteq> method_lower"
  shows "api_routes_loop pathname method_lower (route # rest) = api_routes_loop pathname method_lower rest"
  using assms by simp

lemma api_routes_loop_try:
  assumes "api_method route = None \<or> api_method route = Some method_lower"
  shows "api_routes_loop pathname method_lower (route # rest) =
           (case api_matchPattern (api_pattern route) pathname of
              Some ps \<Rightarrow> Some (route, ps)
            | None \<Rightarrow> api_routes_loop pathname method_lower rest)"
  using assms by auto

text \<open>
  C7. The endpoint matcher scans the routes in order, skips a route whose method is set
  and is not the request method in lower case, and matches segment by segment; a catch-all
  is to bind the rest of the path as one string joined by \<open>/\<close>. With the routes \<open>get\<close> and
  \<open>post\<close> at one pattern, \<open>GET\<close> gives the \<open>get\<close> route and \<open>DELETE\<close> gives none, and the
  catch-all \<open>:slug+\<close> binds \<open>slug\<close> to \<open>a/b\<close>. The file \<open>[...__proto__].ts\<close> gives the pattern
  \<open>/api/:__proto__+\<close>: the path \<open>/api/a/b\<close> matches it, and the parameter object that comes
  back is empty. The assignment to the key \<open>__proto__\<close> of the object \<open>{}\<close> has set nothing;
  the same holds for the dynamic segment \<open>:__proto__\<close>. The page matcher, whose object has no
  prototype, binds the name.
\<close>

theorem C7_endpoint_parameter_named_proto:
  "filePathToRoutePattern ''server/api/[...__proto__].ts'' Api = ''/api/:__proto__+''
   \<and> matchApiRoute ''/api/a/b'' ''GET'' [ApiRoute ''/api/:__proto__+'' ''f.ts'' None]
       = Some (ApiRoute ''/api/:__proto__+'' ''f.ts'' None, Map.empty)
   \<and> matchApiRoute ''/api/a'' ''GET'' [ApiRoute ''/api/:__proto__'' ''g.ts'' None]
       = Some (ApiRoute ''/api/:__proto__'' ''g.ts'' None, Map.empty)
   \<and> matchPattern ''/api/a/b'' ''/api/:__proto__+'' = Some [''__proto__'' \<mapsto> Segments [''a'', ''b'']]
   \<and> matchApiRoute ''/api/a/b'' ''GET'' [ApiRoute ''/api/:slug+'' ''s.ts'' None]
       = Some (ApiRoute ''/api/:slug+'' ''s.ts'' None, [''slug'' \<mapsto> ''a/b''])
   \<and> matchApiRoute ''/api/users'' ''GET''
         [ApiRoute ''/api/users'' ''users.get.ts'' (Some ''get''),
          ApiRoute ''/api/users'' ''users.post.ts'' (Some ''post'')]
       = Some (ApiRoute ''/api/users'' ''users.get.ts'' (Some ''get''), Map.empty)
   \<and> matchApiRoute ''/api/users'' ''DELETE''
         [ApiRoute ''/api/users'' ''users.get.ts'' (Some ''get''),
          ApiRoute ''/api/users'' ''users.post.ts'' (Some ''post'')]
       = None"
proof -
  note ev = matchApiRoute_def api_matchPattern_def matchPattern_def segments_of_def endsWith_def
    startsWith_def slice_1_def slice_1_m1_def object_set_def toLowerCase_def toLowerChar_def
  have "filePathToRoutePattern ''server/api/[...__proto__].ts'' Api = ''/api/:__proto__+''"
    by code_simp
  moreover have "matchApiRoute ''/api/a/b'' ''GET'' [ApiRoute ''/api/:__proto__+'' ''f.ts'' None]
       = Some (ApiRoute ''/api/:__proto__+'' ''f.ts'' None, Map.empty)"
    by (simp add: ev)
  moreover have "matchApiRoute ''/api/a'' ''GET'' [ApiRoute ''/api/:__proto__'' ''g.ts'' None]
       = Some (ApiRoute ''/api/:__proto__'' ''g.ts'' None, Map.empty)"
    by (simp add: ev)
  moreover have "matchPattern ''/api/a/b'' ''/api/:__proto__+''
       = Some [''__proto__'' \<mapsto> Segments [''a'', ''b'']]"
    by (simp add: ev)
  moreover have "matchApiRoute ''/api/a/b'' ''GET'' [ApiRoute ''/api/:slug+'' ''s.ts'' None]
       = Some (ApiRoute ''/api/:slug+'' ''s.ts'' None, [''slug'' \<mapsto> ''a/b''])"
    by (simp add: ev)
  moreover have "matchApiRoute ''/api/users'' ''GET''
         [ApiRoute ''/api/users'' ''users.get.ts'' (Some ''get''),
          ApiRoute ''/api/users'' ''users.post.ts'' (Some ''post'')]
       = Some (ApiRoute ''/api/users'' ''users.get.ts'' (Some ''get''), Map.empty)"
    by (simp add: ev)
  moreover have "matchApiRoute ''/api/users'' ''DELETE''
         [ApiRoute ''/api/users'' ''users.get.ts'' (Some ''get''),
          ApiRoute ''/api/users'' ''users.post.ts'' (Some ''post'')]
       = None"
    by (simp add: ev)
  ultimately show ?thesis by blast
qed


section \<open>The route cache\<close>

lemma scanRoutes_call_cached:
  "routeCache s pagesDir = Some cached \<Longrightarrow> scanRoutes_call lc pagesDir s = (entry_promise cached, s)"
  by (simp add: scanRoutes_call_def)

lemma scanRoutes_call_uncached:
  assumes "routeCache s pagesDir = None"
  shows "fst (scanRoutes_call lc pagesDir s) = length (promises s)"
    and "length (promises (snd (scanRoutes_call lc pagesDir s))) = Suc (length (promises s))"
    and "map_option entry_promise (routeCache (snd (scanRoutes_call lc pagesDir s)) pagesDir)
           = Some (length (promises s))"
  using assms by (simp_all add: scanRoutes_call_def Let_def)

lemma scanRoutes_call_twice:
  assumes "routeCache s pagesDir = None"
  shows "fst (scanRoutes_call lc pagesDir (snd (scanRoutes_call lc pagesDir s)))
           = fst (scanRoutes_call lc pagesDir s)"
    and "length (promises (snd (scanRoutes_call lc pagesDir (snd (scanRoutes_call lc pagesDir s)))))
           = Suc (length (promises s))"
  using assms by (simp_all add: scanRoutes_call_def Let_def)

lemma invalidate_removes: "routeCache (invalidateRouteCache pagesDir s) pagesDir = None"
  by (simp add: invalidateRouteCache_def)

lemma invalidate_noop: "routeCache s pagesDir = None \<Longrightarrow> invalidateRouteCache pagesDir s = s"
  by (simp add: invalidateRouteCache_def fun_upd_idem)

lemma scan_after_invalidate:
  "fst (scanRoutes_call lc pagesDir (invalidateRouteCache pagesDir s)) = length (promises s)"
  "length (promises (snd (scanRoutes_call lc pagesDir (invalidateRouteCache pagesDir s))))
     = Suc (length (promises s))"
  by (simp_all add: scanRoutes_call_def invalidateRouteCache_def Let_def)


text \<open>
  C5. A second \<open>scanRoutes\<close> for a directory whose scan is cached or in flight is handed the
  promise of the first, with no further walk, and \<open>invalidateRouteCache\<close> removes the entry
  so that a scan called next walks again; these hold, and the first three runs below show
  them. In the fourth run the file watcher invalidates the directory while its scan is
  in flight. When the walk ends, the suspended \<open>scanRoutes\<close> resumes after its \<open>await\<close> and
  stores the entry again. The scan called after that is handed promise \<open>0\<close>, the one
  fulfilled with what the first walk yielded: there has been one walk, and the directory
  is not read again.
\<close>

theorem C5_invalidate_while_scan_in_flight:
  "fst (run code_unit_compare
          [Scan ''/p/pages'', Scan ''/p/pages'', WalkEnds 0 [''about.vue''], Scan ''/p/pages'']
          initial_state) = [0, 0, 0]
   \<and> length (promises (snd (run code_unit_compare
          [Scan ''/p/pages'', Scan ''/p/pages'', WalkEnds 0 [''about.vue''], Scan ''/p/pages'']
          initial_state))) = 1
   \<and> invalidateRouteCache ''/p/pages'' initial_state = initial_state
   \<and> fst (run code_unit_compare
          [Scan ''/p/pages'', WalkEnds 0 [''about.vue''], Invalidate ''/p/pages'', Scan ''/p/pages'']
          initial_state) = [0, 1]
   \<and> fst (run code_unit_compare
          [Scan ''/p/pages'', Invalidate ''/p/pages'', WalkEnds 0 [''about.vue''], Scan ''/p/pages'']
          initial_state) = [0, 0]
   \<and> promises (snd (run code_unit_compare
          [Scan ''/p/pages'', Invalidate ''/p/pages'', WalkEnds 0 [''about.vue''], Scan ''/p/pages'']
          initial_state))
       = [(''/p/pages'',
           Fulfilled (buildRouteTree code_unit_compare [fileToRoute ''about.vue'' ''/p/pages'']))]"
proof -
  note ev = scanRoutes_call_def invalidateRouteCache_def walk_ends_def resume_ready_def
    initial_state_def Let_def
  have "fst (run code_unit_compare
          [Scan ''/p/pages'', Scan ''/p/pages'', WalkEnds 0 [''about.vue''], Scan ''/p/pages'']
          initial_state) = [0, 0, 0]"
    by (simp add: ev)
  moreover have "length (promises (snd (run code_unit_compare
          [Scan ''/p/pages'', Scan ''/p/pages'', WalkEnds 0 [''about.vue''], Scan ''/p/pages'']
          initial_state))) = 1"
    by (simp add: ev)
  moreover have "invalidateRouteCache ''/p/pages'' initial_state = initial_state"
    by (simp add: ev)
  moreover have "fst (run code_unit_compare
          [Scan ''/p/pages'', WalkEnds 0 [''about.vue''], Invalidate ''/p/pages'', Scan ''/p/pages'']
          initial_state) = [0, 1]"
    by (simp add: ev)
  moreover have "fst (run code_unit_compare
          [Scan ''/p/pages'', Invalidate ''/p/pages'', WalkEnds 0 [''about.vue''], Scan ''/p/pages'']
          initial_state) = [0, 0]"
    by (simp add: ev)
  moreover have "promises (snd (run code_unit_compare
          [Scan ''/p/pages'', Invalidate ''/p/pages'', WalkEnds 0 [''about.vue''], Scan ''/p/pages'']
          initial_state))
       = [(''/p/pages'',
           Fulfilled (buildRouteTree code_unit_compare [fileToRoute ''about.vue'' ''/p/pages'']))]"
    by (simp add: ev startsWith_def)
  ultimately show ?thesis by blast
qed


section \<open>The three passes of \<open>buildRouteTree\<close>\<close>

subsection \<open>The stable sort\<close>

lemma set_insert_by: "set (insert_by cmp x xs) = insert x (set xs)"
  by (induction xs) auto

lemma set_array_sort: "set (array_sort cmp xs) = set xs"
  by (induction xs) (simp_all add: array_sort_def set_insert_by)

lemma length_insert_by: "length (insert_by cmp x xs) = Suc (length xs)"
  by (induction xs) auto

lemma length_array_sort: "length (array_sort cmp xs) = length xs"
  by (induction xs) (simp_all add: array_sort_def length_insert_by)

lemma distinct_insert_by: "distinct (insert_by cmp x xs) = (x \<notin> set xs \<and> distinct xs)"
  by (induction xs) (auto simp: set_insert_by)

lemma distinct_array_sort: "distinct (array_sort cmp xs) = distinct xs"
  by (induction xs) (simp_all add: array_sort_def distinct_insert_by set_insert_by set_array_sort [unfolded array_sort_def])

lemma sorted_insert_by:
  assumes total: "\<And>a b. cmp a b \<le> 0 \<or> cmp b a \<le> 0"
    and trans: "\<And>a b c. cmp a b \<le> 0 \<Longrightarrow> cmp b c \<le> 0 \<Longrightarrow> cmp a c \<le> 0"
  shows "sorted_wrt (\<lambda>a b. cmp a b \<le> 0) xs \<Longrightarrow> sorted_wrt (\<lambda>a b. cmp a b \<le> 0) (insert_by cmp x xs)"
proof (induction xs)
  case Nil
  then show ?case by simp
next
  case (Cons y ys)
  show ?case
  proof (cases "cmp x y \<le> 0")
    case True
    with Cons.prems trans show ?thesis by auto
  next
    case False
    with total have "cmp y x \<le> 0" by blast
    with False Cons show ?thesis by (auto simp: set_insert_by)
  qed
qed

lemma sorted_array_sort:
  assumes total: "\<And>a b. cmp a b \<le> 0 \<or> cmp b a \<le> 0"
    and trans: "\<And>a b c. cmp a b \<le> 0 \<Longrightarrow> cmp b c \<le> 0 \<Longrightarrow> cmp a c \<le> 0"
  shows "sorted_wrt (\<lambda>a b. cmp a b \<le> 0) (array_sort cmp xs)"
proof (induction xs)
  case Nil
  then show ?case by (simp add: array_sort_def)
next
  case (Cons x xs)
  then show ?case
    using sorted_insert_by [of cmp, OF total trans] by (simp add: array_sort_def)
qed

subsection \<open>First pass\<close>

lemma set_map_set: "set (map_set m k v) \<subseteq> insert (k, v) (set m)"
  by (induction m) (auto split: if_splits)

lemma keys_map_set: "fst ` set (map_set m k v) = insert k (fst ` set m)"
proof (induction m)
  case Nil
  then show ?case by simp
next
  case (Cons a m)
  obtain k' v' where a: "a = (k', v')" by (cases a)
  show ?case
  proof (cases "k' = k")
    case True
    with a show ?thesis by simp
  next
    case False
    with a Cons show ?thesis by auto
  qed
qed

lemma distinct_map_set: "distinct (map fst m) \<Longrightarrow> distinct (map fst (map_set m k v))"
proof (induction m)
  case Nil
  then show ?case by simp
next
  case (Cons a m)
  obtain k' v' where a: "a = (k', v')" by (cases a)
  show ?case
  proof (cases "k' = k")
    case True
    with Cons.prems a show ?thesis by simp
  next
    case False
    have "k' \<notin> fst ` set (map_set m k v)"
      using Cons.prems a False by (simp add: keys_map_set image_iff)
    with Cons a False show ?thesis by (simp add: image_iff)
  qed
qed

lemma parents_pass_entries:
  assumes "drop i flat = rs" and "list_all (parent_entry flat) m" and "distinct (map fst m)"
  shows "list_all (parent_entry flat) (parents_pass i rs m) \<and> distinct (map fst (parents_pass i rs m))"
  using assms
proof (induction rs arbitrary: i m)
  case Nil
  then show ?case by simp
next
  case (Cons route rest)
  from Cons.prems(1) have i: "i < length flat"
    by (metis drop_eq_Nil2 list.distinct(1) not_le)
  from Cons.prems(1) have at: "flat ! i = route"
    by (metis i hd_drop_conv_nth list.sel(1))
  from Cons.prems(1) have next_: "drop (Suc i) flat = rest"
    by (metis drop_Suc list.sel(3) tl_drop)
  show ?case
  proof (cases "pattern route = ''/'' \<or> is_index_file (basename (filePath route))")
    case True
    then show ?thesis
      using Cons.IH [OF next_ Cons.prems(2,3)] by auto
  next
    case False
    have "parent_entry flat (pattern route, i)"
      using False i at by (simp add: parent_entry_def)
    then have "list_all (parent_entry flat) (map_set m (pattern route) i)"
      using Cons.prems(2) set_map_set [of m "pattern route" i] by (auto simp: list_all_iff)
    moreover have "distinct (map fst (map_set m (pattern route) i))"
      using Cons.prems(3) by (rule distinct_map_set)
    ultimately show ?thesis
      using False Cons.IH [OF next_] by simp
  qed
qed

lemma map_parent_entries:
  "list_all (parent_entry flat) (parents_pass 0 flat []) \<and> distinct (map fst (parents_pass 0 flat []))"
  by (rule parents_pass_entries) simp_all


lemma filter_insert_key:
  "{e \<in> insert x A. fst e \<noteq> k}
     = (if fst x \<noteq> k then insert x {e \<in> A. fst e \<noteq> k} else {e \<in> A. fst e \<noteq> k})"
  by auto

lemma set_map_set_distinct:
  "distinct (map fst m) \<Longrightarrow> set (map_set m k v) = insert (k, v) {e \<in> set m. fst e \<noteq> k}"
proof (induction m)
  case Nil
  then show ?case by simp
next
  case (Cons a m)
  obtain k' v' where a: "a = (k', v')" by (cases a)
  show ?case
  proof (cases "k' = k")
    case True
    with Cons.prems a have "k \<notin> fst ` set m" by simp
    then have "{e \<in> set m. fst e \<noteq> k} = set m" by (auto simp: image_iff)
    moreover have "{e \<in> set (a # m). fst e \<noteq> k} = {e \<in> set m. fst e \<noteq> k}"
      unfolding a True by auto
    moreover have "set (map_set (a # m) k v) = insert (k, v) (set m)"
      unfolding a True by simp
    ultimately show ?thesis by simp
  next
    case False
    from Cons.prems have "distinct (map fst m)" by simp
    then have ih: "set (map_set m k v) = insert (k, v) {e \<in> set m. fst e \<noteq> k}"
      by (rule Cons.IH)
    have "{e \<in> set (a # m). fst e \<noteq> k} = insert (k', v') {e \<in> set m. fst e \<noteq> k}"
      unfolding a using False by auto
    moreover have "set (map_set (a # m) k v) = insert (k', v') (set (map_set m k v))"
      unfolding a using False by simp
    ultimately show ?thesis
      by (simp only: ih insert_commute)
  qed
qed

lemma parents_pass_last:
  assumes "drop i flat = rs" and "distinct (map fst m)"
    and "\<forall>pp j. ((pp, j) \<in> set m)
           = (parent_entry flat (pp, j) \<and> j < i \<and> (\<forall>k<i. parent_entry flat (pp, k) \<longrightarrow> k \<le> j))"
  shows "\<forall>pp j. ((pp, j) \<in> set (parents_pass i rs m))
           = (parent_entry flat (pp, j) \<and> (\<forall>k. parent_entry flat (pp, k) \<longrightarrow> k \<le> j))"
  using assms
proof (induction rs arbitrary: i m)
  case Nil
  then have "length flat \<le> i" by simp
  then have b: "\<And>pp k. parent_entry flat (pp, k) \<Longrightarrow> k < i"
    by (simp add: parent_entry_def)
  show ?case
  proof (intro allI)
    fix pp j
    have "((pp, j) \<in> set (parents_pass i [] m)) = ((pp, j) \<in> set m)" by simp
    also have "\<dots> = (parent_entry flat (pp, j) \<and> j < i
          \<and> (\<forall>k<i. parent_entry flat (pp, k) \<longrightarrow> k \<le> j))"
      using Nil.prems(3) by blast
    also have "\<dots> = (parent_entry flat (pp, j) \<and> (\<forall>k. parent_entry flat (pp, k) \<longrightarrow> k \<le> j))"
      using b [of pp] by auto
    finally show "((pp, j) \<in> set (parents_pass i [] m))
           = (parent_entry flat (pp, j) \<and> (\<forall>k. parent_entry flat (pp, k) \<longrightarrow> k \<le> j))" .
  qed
next
  case (Cons route rest)
  from Cons.prems(1) have i: "i < length flat"
    by (metis drop_eq_Nil2 list.distinct(1) not_le)
  from Cons.prems(1) have at: "flat ! i = route"
    by (metis i hd_drop_conv_nth list.sel(1))
  from Cons.prems(1) have next_: "drop (Suc i) flat = rest"
    by (metis drop_Suc list.sel(3) tl_drop)
  note inv = Cons.prems(3) [rule_format]
  show ?case
  proof (cases "pattern route = ''/'' \<or> is_index_file (basename (filePath route))")
    case True
    then have no: "\<And>pp. \<not> parent_entry flat (pp, i)"
      using at by (auto simp: parent_entry_def)
    have inv': "\<forall>pp j. ((pp, j) \<in> set m)
           = (parent_entry flat (pp, j) \<and> j < Suc i
              \<and> (\<forall>k<Suc i. parent_entry flat (pp, k) \<longrightarrow> k \<le> j))"
    proof (intro allI)
      fix pp j
      show "((pp, j) \<in> set m)
           = (parent_entry flat (pp, j) \<and> j < Suc i
              \<and> (\<forall>k<Suc i. parent_entry flat (pp, k) \<longrightarrow> k \<le> j))"
        unfolding inv [of pp j] using no [of pp] by (auto simp: less_Suc_eq)
    qed
    have step: "parents_pass i (route # rest) m = parents_pass (Suc i) rest m"
      using True by auto
    show ?thesis
      unfolding step by (rule Cons.IH [OF next_ Cons.prems(2) inv'])
  next
    case False
    let ?p = "pattern route"
    have pe: "\<And>pp. parent_entry flat (pp, i) = (pp = ?p)"
      using False i at by (auto simp: parent_entry_def)
    have s: "set (map_set m ?p i) = insert (?p, i) {e \<in> set m. fst e \<noteq> ?p}"
      using Cons.prems(2) by (rule set_map_set_distinct)
    have d: "distinct (map fst (map_set m ?p i))"
      using Cons.prems(2) by (rule distinct_map_set)
    have inv': "\<forall>pp j. ((pp, j) \<in> set (map_set m ?p i))
           = (parent_entry flat (pp, j) \<and> j < Suc i
              \<and> (\<forall>k<Suc i. parent_entry flat (pp, k) \<longrightarrow> k \<le> j))"
    proof (intro allI)
      fix pp j
      show "((pp, j) \<in> set (map_set m ?p i))
           = (parent_entry flat (pp, j) \<and> j < Suc i
              \<and> (\<forall>k<Suc i. parent_entry flat (pp, k) \<longrightarrow> k \<le> j))"
      proof (cases "pp = ?p")
        case True
        have "(parent_entry flat (?p, j) \<and> j < Suc i
              \<and> (\<forall>k<Suc i. parent_entry flat (?p, k) \<longrightarrow> k \<le> j)) = (j = i)"
        proof
          assume a: "parent_entry flat (?p, j) \<and> j < Suc i
              \<and> (\<forall>k<Suc i. parent_entry flat (?p, k) \<longrightarrow> k \<le> j)"
          then have "i \<le> j" using pe [of ?p] by auto
          with a show "j = i" by simp
        next
          assume "j = i"
          then show "parent_entry flat (?p, j) \<and> j < Suc i
              \<and> (\<forall>k<Suc i. parent_entry flat (?p, k) \<longrightarrow> k \<le> j)"
            using pe [of ?p] by auto
        qed
        with True show ?thesis unfolding s by auto
      next
        case False
        then have no: "\<not> parent_entry flat (pp, i)" using pe by simp
        have "((pp, j) \<in> set (map_set m ?p i)) = ((pp, j) \<in> set m)"
          unfolding s using False by auto
        also have "\<dots> = (parent_entry flat (pp, j) \<and> j < Suc i
              \<and> (\<forall>k<Suc i. parent_entry flat (pp, k) \<longrightarrow> k \<le> j))"
          unfolding inv [of pp j] using no by (auto simp: less_Suc_eq)
        finally show ?thesis .
      qed
    qed
    have step: "parents_pass i (route # rest) m = parents_pass (Suc i) rest (map_set m ?p i)"
      using False by simp
    show ?thesis
      unfolding step by (rule Cons.IH [OF next_ d inv'])
  qed
qed

lemma map_parent_last:
  "((pp, j) \<in> set (parents_pass 0 flat []))
     = (parent_entry flat (pp, j) \<and> (\<forall>k. parent_entry flat (pp, k) \<longrightarrow> k \<le> j))"
proof -
  have "\<forall>pp j. ((pp, j) \<in> set ([] :: parent_map))
           = (parent_entry flat (pp, j) \<and> j < 0 \<and> (\<forall>k<0. parent_entry flat (pp, k) \<longrightarrow> k \<le> j))"
    by simp
  from parents_pass_last [of 0 flat flat "[]", OF _ _ this] show ?thesis by simp
qed

lemma parents_pass_keys:
  "fst ` set (parents_pass i rs m)
     = fst ` set m \<union> {pattern r | r. r \<in> set rs \<and> pattern r \<noteq> ''/''
                                  \<and> \<not> is_index_file (basename (filePath r))}"
proof (induction rs arbitrary: i m)
  case Nil
  then show ?case by simp
next
  case (Cons route rest)
  show ?case
  proof (cases "pattern route = ''/'' \<or> is_index_file (basename (filePath route))")
    case True
    then have "parents_pass i (route # rest) m = parents_pass (Suc i) rest m" by auto
    with True Cons.IH [of "Suc i" m] show ?thesis by auto
  next
    case False
    then have "parents_pass i (route # rest) m
                 = parents_pass (Suc i) rest (map_set m (pattern route) i)" by simp
    with False Cons.IH [of "Suc i" "map_set m (pattern route) i"] show ?thesis
      by (auto simp: keys_map_set)
  qed
qed

lemma map_parent_key:
  assumes "j < length flat" and "pattern (flat ! j) \<noteq> ''/''"
    and "\<not> is_index_file (basename (filePath (flat ! j)))"
  shows "\<exists>k. j \<le> k \<and> (pattern (flat ! j), k) \<in> set (parents_pass 0 flat [])"
proof -
  from assms have pe: "parent_entry flat (pattern (flat ! j), j)"
    by (simp add: parent_entry_def)
  from assms have "pattern (flat ! j) \<in> fst ` set (parents_pass 0 flat [])"
    unfolding parents_pass_keys by auto
  then obtain k where k: "(pattern (flat ! j), k) \<in> set (parents_pass 0 flat [])"
    by (auto simp: image_iff)
  with pe have "j \<le> k" unfolding map_parent_last by blast
  with k show ?thesis by blast
qed


subsection \<open>Second pass\<close>

lemma attach_loop_step:
  "attach_loop route i ((pp, j) # m) (store, cs) =
     (if i \<noteq> j \<and> nests_under (pattern route) pp
      then attach_loop route i m
             (store[j := store ! j @ [(i, relative_pattern (pattern route) pp)]], insert i cs)
      else attach_loop route i m (store, cs))"
  by (auto simp: nests_under_def relative_pattern_def Let_def)

lemma attach_loop_spec:
  "attach_loop route i m (store, cs) = (store', cs') \<Longrightarrow>
     length store' = length store
     \<and> (\<forall>a < length store. set (store' ! a) = set (store ! a)
           \<union> {(i, relative_pattern (pattern route) pp) | pp.
                (pp, a) \<in> set m \<and> i \<noteq> a \<and> nests_under (pattern route) pp})
     \<and> cs' = cs \<union> {k. k = i \<and> (\<exists>pp j. (pp, j) \<in> set m \<and> i \<noteq> j \<and> nests_under (pattern route) pp)}"
proof (induction m arbitrary: store cs)
  case Nil
  then show ?case by simp
next
  case (Cons e m)
  obtain pp j where e: "e = (pp, j)" by (cases e)
  show ?case
  proof (cases "i \<noteq> j \<and> nests_under (pattern route) pp")
    case True
    let ?store1 = "store[j := store ! j @ [(i, relative_pattern (pattern route) pp)]]"
    from Cons.prems True e
    have "attach_loop route i m (?store1, insert i cs) = (store', cs')"
      by (simp add: attach_loop_step del: attach_loop.simps)
    from Cons.IH [OF this]
    have l: "length store' = length ?store1"
      and s: "\<forall>a < length ?store1. set (store' ! a) = set (?store1 ! a)
           \<union> {(i, relative_pattern (pattern route) pp') | pp'.
                (pp', a) \<in> set m \<and> i \<noteq> a \<and> nests_under (pattern route) pp'}"
      and c: "cs' = insert i cs \<union> {k. k = i \<and> (\<exists>pp j. (pp, j) \<in> set m \<and> i \<noteq> j \<and> nests_under (pattern route) pp)}"
      by blast+
    have "\<forall>a < length store. set (store' ! a) = set (store ! a)
           \<union> {(i, relative_pattern (pattern route) pp') | pp'.
                (pp', a) \<in> set (e # m) \<and> i \<noteq> a \<and> nests_under (pattern route) pp'}"
    proof (intro allI impI)
      fix a assume a: "a < length store"
      then have "set (store' ! a) = set (?store1 ! a)
           \<union> {(i, relative_pattern (pattern route) pp') | pp'.
                (pp', a) \<in> set m \<and> i \<noteq> a \<and> nests_under (pattern route) pp'}"
        using s by simp
      moreover have "set (?store1 ! a) = set (store ! a)
           \<union> (if a = j then {(i, relative_pattern (pattern route) pp)} else {})"
        using a by (simp add: nth_list_update)
      ultimately show "set (store' ! a) = set (store ! a)
           \<union> {(i, relative_pattern (pattern route) pp') | pp'.
                (pp', a) \<in> set (e # m) \<and> i \<noteq> a \<and> nests_under (pattern route) pp'}"
        using True e by auto
    qed
    moreover have "cs' = cs \<union> {k. k = i \<and> (\<exists>pp j. (pp, j) \<in> set (e # m) \<and> i \<noteq> j \<and> nests_under (pattern route) pp)}"
      using c True e by auto
    ultimately show ?thesis using l by simp
  next
    case False
    from Cons.prems False e
    have "attach_loop route i m (store, cs) = (store', cs')"
      by (simp add: attach_loop_step del: attach_loop.simps)
    from Cons.IH [OF this]
    have l: "length store' = length store"
      and s: "\<forall>a < length store. set (store' ! a) = set (store ! a)
           \<union> {(i, relative_pattern (pattern route) pp') | pp'.
                (pp', a) \<in> set m \<and> i \<noteq> a \<and> nests_under (pattern route) pp'}"
      and c: "cs' = cs \<union> {k. k = i \<and> (\<exists>pp j. (pp, j) \<in> set m \<and> i \<noteq> j \<and> nests_under (pattern route) pp)}"
      by blast+
    have "\<forall>a < length store. set (store' ! a) = set (store ! a)
           \<union> {(i, relative_pattern (pattern route) pp') | pp'.
                (pp', a) \<in> set (e # m) \<and> i \<noteq> a \<and> nests_under (pattern route) pp'}"
      using s False e by auto
    moreover have "cs' = cs \<union> {k. k = i \<and> (\<exists>pp j. (pp, j) \<in> set (e # m) \<and> i \<noteq> j \<and> nests_under (pattern route) pp)}"
      using c False e by auto
    ultimately show ?thesis using l by simp
  qed
qed


lemma drop_Cons_nth:
  assumes "drop i xs = y # ys"
  shows "i < length xs" and "xs ! i = y" and "drop (Suc i) xs = ys"
proof -
  show i: "i < length xs" using assms by (metis drop_eq_Nil2 list.distinct(1) not_le)
  show "xs ! i = y" using assms i by (metis hd_drop_conv_nth list.sel(1))
  show "drop (Suc i) xs = ys" using assms by (metis drop_Suc list.sel(3) tl_drop)
qed

lemma children_pass_spec:
  "drop i flat = rs \<Longrightarrow> children_pass i rs m (store, cs) = (store', cs') \<Longrightarrow>
     length store' = length store
     \<and> (\<forall>a < length store. set (store' ! a) = set (store ! a)
           \<union> {(k, relative_pattern (pattern (flat ! k)) pp) | k pp.
                i \<le> k \<and> k < length flat \<and> (pp, a) \<in> set m \<and> k \<noteq> a
                \<and> nests_under (pattern (flat ! k)) pp})
     \<and> cs' = cs \<union> {k. i \<le> k \<and> k < length flat
                       \<and> (\<exists>pp j. (pp, j) \<in> set m \<and> k \<noteq> j \<and> nests_under (pattern (flat ! k)) pp)}"
proof (induction rs arbitrary: i store cs)
  case Nil
  then have "length flat \<le> i" by simp
  with Nil show ?case by auto
next
  case (Cons route rest)
  note d = drop_Cons_nth [OF Cons.prems(1)]
  obtain s1 c1 where a1: "attach_loop route i m (store, cs) = (s1, c1)"
    by (cases "attach_loop route i m (store, cs)")
  with Cons.prems(2) have r: "children_pass (Suc i) rest m (s1, c1) = (store', cs')"
    by simp
  from attach_loop_spec [OF a1]
  have l1: "length s1 = length store"
    and s1: "\<forall>a < length store. set (s1 ! a) = set (store ! a)
           \<union> {(i, relative_pattern (pattern route) pp) | pp.
                (pp, a) \<in> set m \<and> i \<noteq> a \<and> nests_under (pattern route) pp}"
    and c1: "c1 = cs \<union> {k. k = i \<and> (\<exists>pp j. (pp, j) \<in> set m \<and> i \<noteq> j \<and> nests_under (pattern route) pp)}"
    by blast+
  from Cons.IH [OF d(3) r]
  have l2: "length store' = length s1"
    and s2: "\<forall>a < length s1. set (store' ! a) = set (s1 ! a)
           \<union> {(k, relative_pattern (pattern (flat ! k)) pp) | k pp.
                Suc i \<le> k \<and> k < length flat \<and> (pp, a) \<in> set m \<and> k \<noteq> a
                \<and> nests_under (pattern (flat ! k)) pp}"
    and c2: "cs' = c1 \<union> {k. Suc i \<le> k \<and> k < length flat
                       \<and> (\<exists>pp j. (pp, j) \<in> set m \<and> k \<noteq> j \<and> nests_under (pattern (flat ! k)) pp)}"
    by blast+
  have split: "\<And>k. (i \<le> k) = (k = i \<or> Suc i \<le> k)" by auto
  have "\<forall>a < length store. set (store' ! a) = set (store ! a)
           \<union> {(k, relative_pattern (pattern (flat ! k)) pp) | k pp.
                i \<le> k \<and> k < length flat \<and> (pp, a) \<in> set m \<and> k \<noteq> a
                \<and> nests_under (pattern (flat ! k)) pp}"
  proof (intro allI impI)
    fix a assume a: "a < length store"
    have "set (store' ! a) = (set (store ! a)
           \<union> {(i, relative_pattern (pattern route) pp) | pp.
                (pp, a) \<in> set m \<and> i \<noteq> a \<and> nests_under (pattern route) pp})
           \<union> {(k, relative_pattern (pattern (flat ! k)) pp) | k pp.
                Suc i \<le> k \<and> k < length flat \<and> (pp, a) \<in> set m \<and> k \<noteq> a
                \<and> nests_under (pattern (flat ! k)) pp}"
      using a s1 s2 l1 by simp
    also have "\<dots> = set (store ! a)
           \<union> {(k, relative_pattern (pattern (flat ! k)) pp) | k pp.
                i \<le> k \<and> k < length flat \<and> (pp, a) \<in> set m \<and> k \<noteq> a
                \<and> nests_under (pattern (flat ! k)) pp}"
      using d(1,2) by (auto simp: split)
    finally show "set (store' ! a) = set (store ! a)
           \<union> {(k, relative_pattern (pattern (flat ! k)) pp) | k pp.
                i \<le> k \<and> k < length flat \<and> (pp, a) \<in> set m \<and> k \<noteq> a
                \<and> nests_under (pattern (flat ! k)) pp}" .
  qed
  moreover have "cs' = cs \<union> {k. i \<le> k \<and> k < length flat
                       \<and> (\<exists>pp j. (pp, j) \<in> set m \<and> k \<noteq> j \<and> nests_under (pattern (flat ! k)) pp)}"
    unfolding c2 c1 using d(1,2) by (auto simp: split)
  ultimately show ?case using l1 l2 by simp
qed


subsection \<open>Third pass\<close>

lemma top_pass_spec:
  "drop i flat = rs \<Longrightarrow> top_pass lc i rs cs (store, tops) = (store', tops') \<Longrightarrow>
     length store' = length store
     \<and> (\<forall>a < length store. store' ! a =
           (if i \<le> a \<and> a < length flat \<and> a \<notin> cs
            then array_sort (\<lambda>a b. compare_patterns lc (snd a) (snd b)) (store ! a)
            else store ! a))
     \<and> tops' = tops @ filter (\<lambda>k. k \<notin> cs) [i ..< length flat]"
proof (induction rs arbitrary: i store tops)
  case Nil
  then have "length flat \<le> i" by simp
  with Nil show ?case by auto
next
  case (Cons route rest)
  note d = drop_Cons_nth [OF Cons.prems(1)]
  have upt: "[i ..< length flat] = i # [Suc i ..< length flat]"
    using d(1) by (simp add: upt_conv_Cons)
  let ?cmp = "\<lambda>a b. compare_patterns lc (snd a) (snd b)"
  show ?case
  proof (cases "i \<in> cs")
    case True
    with Cons.prems(2) have "top_pass lc (Suc i) rest cs (store, tops) = (store', tops')"
      by simp
    from Cons.IH [OF d(3) this] True show ?thesis
      by (auto simp: upt Suc_le_eq le_less)
  next
    case False
    let ?s1 = "if length (store ! i) > 0 then store[i := array_sort ?cmp (store ! i)] else store"
    have s1: "\<forall>a < length store. ?s1 ! a = (if a = i then array_sort ?cmp (store ! a) else store ! a)"
      by (auto simp: nth_list_update array_sort_def)
    have l1: "length ?s1 = length store" by simp
    from Cons.prems(2) False
    have "top_pass lc (Suc i) rest cs (?s1, tops @ [i]) = (store', tops')"
      by simp
    from Cons.IH [OF d(3) this]
    have l2: "length store' = length ?s1"
      and s2: "\<forall>a < length ?s1. store' ! a =
           (if Suc i \<le> a \<and> a < length flat \<and> a \<notin> cs
            then array_sort ?cmp (?s1 ! a) else ?s1 ! a)"
      and t2: "tops' = (tops @ [i]) @ filter (\<lambda>k. k \<notin> cs) [Suc i ..< length flat]"
      by blast+
    have "\<forall>a < length store. store' ! a =
           (if i \<le> a \<and> a < length flat \<and> a \<notin> cs
            then array_sort ?cmp (store ! a) else store ! a)"
    proof (intro allI impI)
      fix a assume a: "a < length store"
      show "store' ! a =
           (if i \<le> a \<and> a < length flat \<and> a \<notin> cs
            then array_sort ?cmp (store ! a) else store ! a)"
      proof (cases "a = i")
        case True
        with a s1 s2 l1 False d(1) show ?thesis by simp
      next
        case ne: False
        with a s1 have "?s1 ! a = store ! a" by simp
        with a s2 l1 ne show ?thesis by (auto simp: Suc_le_eq le_less)
      qed
    qed
    moreover have "tops' = tops @ filter (\<lambda>k. k \<notin> cs) [i ..< length flat]"
      using t2 False by (simp add: upt)
    ultimately show ?thesis using l1 l2 by simp
  qed
qed


subsection \<open>The table that comes out\<close>

lemma buildRouteTree_parts:
  obtains store1 cs store2 tops where
    "children_pass 0 flat (parents_pass 0 flat []) (replicate (length flat) [], {}) = (store1, cs)"
    and "top_pass lc 0 flat cs (store1, []) = (store2, tops)"
    and "buildRouteTree lc flat =
           \<lparr> flat_routes = flat,
             routes_top = array_sort (\<lambda>a b. compare_patterns lc (pattern (flat ! a)) (pattern (flat ! b))) tops,
             arrays = store2 \<rparr>"
proof -
  obtain store1 cs where a: "children_pass 0 flat (parents_pass 0 flat []) (replicate (length flat) [], {}) = (store1, cs)"
    by (cases "children_pass 0 flat (parents_pass 0 flat []) (replicate (length flat) [], {})")
  obtain store2 tops where b: "top_pass lc 0 flat cs (store1, []) = (store2, tops)"
    by (cases "top_pass lc 0 flat cs (store1, [])")
  from a b have "buildRouteTree lc flat =
           \<lparr> flat_routes = flat,
             routes_top = array_sort (\<lambda>a b. compare_patterns lc (pattern (flat ! a)) (pattern (flat ! b))) tops,
             arrays = store2 \<rparr>"
    by (simp add: buildRouteTree_def)
  with a b show ?thesis by (rule that)
qed

lemma buildRouteTree_spec:
  fixes lc flat
  defines "t \<equiv> buildRouteTree lc flat" and "m \<equiv> parents_pass 0 flat []"
  defines "child \<equiv> \<lambda>k. \<exists>pp j. (pp, j) \<in> set m \<and> k \<noteq> j \<and> nests_under (pattern (flat ! k)) pp"
  shows "flat_routes t = flat" and "length (arrays t) = length flat"
    and "\<forall>a < length flat. set (arrays t ! a) =
           {(k, relative_pattern (pattern (flat ! k)) pp) | k pp.
              k < length flat \<and> (pp, a) \<in> set m \<and> k \<noteq> a \<and> nests_under (pattern (flat ! k)) pp}"
    and "routes_top t =
           array_sort (\<lambda>a b. compare_patterns lc (pattern (flat ! a)) (pattern (flat ! b)))
             (filter (\<lambda>k. \<not> child k) [0 ..< length flat])"
    and "\<forall>a < length flat. \<not> child a \<longrightarrow>
           (\<exists>xs. arrays t ! a = array_sort (\<lambda>a b. compare_patterns lc (snd a) (snd b)) xs)"
proof -
  obtain store1 cs store2 tops where
    a: "children_pass 0 flat m (replicate (length flat) [], {}) = (store1, cs)"
    and b: "top_pass lc 0 flat cs (store1, []) = (store2, tops)"
    and c: "t = \<lparr> flat_routes = flat,
             routes_top = array_sort (\<lambda>a b. compare_patterns lc (pattern (flat ! a)) (pattern (flat ! b))) tops,
             arrays = store2 \<rparr>"
    unfolding t_def m_def by (rule buildRouteTree_parts)
  have d0: "drop 0 flat = flat" by simp
  from children_pass_spec [OF d0 a]
  have l1: "length store1 = length flat"
    and s1: "\<forall>a < length flat. set (store1 ! a) =
           {(k, relative_pattern (pattern (flat ! k)) pp) | k pp.
              k < length flat \<and> (pp, a) \<in> set m \<and> k \<noteq> a \<and> nests_under (pattern (flat ! k)) pp}"
    and cs: "cs = {k. k < length flat \<and> child k}"
    by (simp_all add: child_def)
  from top_pass_spec [OF d0 b]
  have l2: "length store2 = length store1"
    and s2: "\<forall>a < length store1. store2 ! a =
           (if a < length flat \<and> a \<notin> cs
            then array_sort (\<lambda>a b. compare_patterns lc (snd a) (snd b)) (store1 ! a)
            else store1 ! a)"
    and tp: "tops = filter (\<lambda>k. k \<notin> cs) [0 ..< length flat]"
    by simp_all
  show "flat_routes t = flat" by (simp add: c)
  show "length (arrays t) = length flat" by (simp add: c l1 l2)
  show "\<forall>a < length flat. set (arrays t ! a) =
           {(k, relative_pattern (pattern (flat ! k)) pp) | k pp.
              k < length flat \<and> (pp, a) \<in> set m \<and> k \<noteq> a \<and> nests_under (pattern (flat ! k)) pp}"
    using s1 s2 l1 by (simp add: c set_array_sort)
  have "filter (\<lambda>k. k \<notin> cs) [0 ..< length flat] = filter (\<lambda>k. \<not> child k) [0 ..< length flat]"
    by (rule filter_cong) (auto simp: cs)
  then show "routes_top t =
           array_sort (\<lambda>a b. compare_patterns lc (pattern (flat ! a)) (pattern (flat ! b)))
             (filter (\<lambda>k. \<not> child k) [0 ..< length flat])"
    by (simp add: c tp)
  show "\<forall>a < length flat. \<not> child a \<longrightarrow>
           (\<exists>xs. arrays t ! a = array_sort (\<lambda>a b. compare_patterns lc (snd a) (snd b)) xs)"
    using s2 l1 by (auto simp: c cs)
qed


lemma nests_relative_iff:
  "(nests_under pat pp \<and> rel = relative_pattern pat pp)
     = ((pat = pp @ ''/'' @ rel \<and> CHR ''/'' \<notin> set rel) \<or> (pat = pp \<and> rel = []))"
proof (cases "pat = pp")
  case True
  then show ?thesis by (auto simp: nests_under_def relative_pattern_def)
next
  case False
  have "(startsWith pat (pp @ ''/'') \<and> CHR ''/'' \<notin> set (drop (length (pp @ ''/'')) pat)
          \<and> rel = drop (length (pp @ ''/'')) pat)
        = (pat = (pp @ ''/'') @ rel \<and> CHR ''/'' \<notin> set rel)"
    by (auto simp: startsWith_iff)
  with False show ?thesis by (simp add: nests_under_def relative_pattern_def)
qed

lemma parent_entry_unique:
  assumes "list_all (parent_entry flat) m" and "(pp, j) \<in> set m" and "(pp', j) \<in> set m"
  shows "pp' = pp"
proof -
  from assms(1,2) have "pattern (flat ! j) = pp"
    by (force simp: list_all_iff parent_entry_def)
  moreover from assms(1,3) have "pattern (flat ! j) = pp'"
    by (force simp: list_all_iff parent_entry_def)
  ultimately show ?thesis by simp
qed

lemma child_membership:
  assumes m: "(pp, j) \<in> set (parents_pass 0 flat [])" and i: "i < length flat"
  shows "((i, rel) \<in> set (arrays (buildRouteTree lc flat) ! j))
           = (i \<noteq> j \<and> ((pattern (flat ! i) = pp @ ''/'' @ rel \<and> CHR ''/'' \<notin> set rel)
                       \<or> (pattern (flat ! i) = pp \<and> rel = [])))"
proof -
  let ?m = "parents_pass 0 flat []"
  let ?pat = "pattern (flat ! i)"
  have pe: "list_all (parent_entry flat) ?m" using map_parent_entries by blast
  with m have j: "j < length flat" by (force simp: list_all_iff parent_entry_def)
  have s: "set (arrays (buildRouteTree lc flat) ! j) =
           {(k, relative_pattern (pattern (flat ! k)) pp') | k pp'.
              k < length flat \<and> (pp', j) \<in> set ?m \<and> k \<noteq> j \<and> nests_under (pattern (flat ! k)) pp'}"
    using buildRouteTree_spec(3) [of flat lc] j by blast
  have "((i, rel) \<in> set (arrays (buildRouteTree lc flat) ! j))
          = (i \<noteq> j \<and> (nests_under ?pat pp \<and> rel = relative_pattern ?pat pp))"
  proof
    assume "(i, rel) \<in> set (arrays (buildRouteTree lc flat) ! j)"
    then obtain pp' where r: "rel = relative_pattern ?pat pp'" and e: "(pp', j) \<in> set ?m"
      and n: "i \<noteq> j" "nests_under ?pat pp'"
      unfolding s by blast
    from parent_entry_unique [OF pe m e] have "pp' = pp" .
    with r n show "i \<noteq> j \<and> (nests_under ?pat pp \<and> rel = relative_pattern ?pat pp)"
      by simp
  next
    assume "i \<noteq> j \<and> (nests_under ?pat pp \<and> rel = relative_pattern ?pat pp)"
    with m i show "(i, rel) \<in> set (arrays (buildRouteTree lc flat) ! j)"
      unfolding s by blast
  qed
  then show ?thesis by (simp only: nests_relative_iff)
qed

lemma child_origin:
  assumes j: "j < length flat" and c: "(i, rel) \<in> set (arrays (buildRouteTree lc flat) ! j)"
  shows "i < length flat \<and> (pattern (flat ! j), j) \<in> set (parents_pass 0 flat [])"
proof -
  let ?m = "parents_pass 0 flat []"
  have pe: "list_all (parent_entry flat) ?m" using map_parent_entries by blast
  from c buildRouteTree_spec(3) [of flat lc] j
  obtain pp where "i < length flat" and "(pp, j) \<in> set ?m" by auto
  moreover from this pe have "pattern (flat ! j) = pp"
    by (auto simp: list_all_iff parent_entry_def)
  ultimately show ?thesis by simp
qed

lemma top_level_routes:
  "distinct (routes_top (buildRouteTree lc flat))"
  "set (routes_top (buildRouteTree lc flat)) =
     {i. i < length flat \<and> \<not> (\<exists>j rel. j < length flat \<and> (i, rel) \<in> set (arrays (buildRouteTree lc flat) ! j))}"
proof -
  let ?m = "parents_pass 0 flat []"
  let ?t = "buildRouteTree lc flat"
  let ?child = "\<lambda>k. \<exists>pp j. (pp, j) \<in> set ?m \<and> k \<noteq> j \<and> nests_under (pattern (flat ! k)) pp"
  have pe: "list_all (parent_entry flat) ?m" using map_parent_entries by blast
  have rt: "routes_top ?t =
           array_sort (\<lambda>a b. compare_patterns lc (pattern (flat ! a)) (pattern (flat ! b)))
             (filter (\<lambda>k. \<not> ?child k) [0 ..< length flat])"
    by (rule buildRouteTree_spec(4))
  show "distinct (routes_top ?t)"
    by (simp add: rt distinct_array_sort)
  have h: "\<And>i. i < length flat \<Longrightarrow>
          ?child i = (\<exists>j rel. j < length flat \<and> (i, rel) \<in> set (arrays ?t ! j))"
  proof
    fix i assume i: "i < length flat" and "?child i"
    then obtain pp j where e: "(pp, j) \<in> set ?m" and n: "i \<noteq> j" "nests_under (pattern (flat ! i)) pp"
      by blast
    from e pe have j: "j < length flat" by (auto simp: list_all_iff parent_entry_def)
    from n have "(i, relative_pattern (pattern (flat ! i)) pp) \<in> set (arrays ?t ! j)"
      using child_membership [OF e i, of "relative_pattern (pattern (flat ! i)) pp" lc]
        nests_relative_iff [of "pattern (flat ! i)" pp "relative_pattern (pattern (flat ! i)) pp"]
      by simp
    with j show "\<exists>j rel. j < length flat \<and> (i, rel) \<in> set (arrays ?t ! j)" by blast
  next
    fix i assume i: "i < length flat" and "\<exists>j rel. j < length flat \<and> (i, rel) \<in> set (arrays ?t ! j)"
    then obtain j rel where j: "j < length flat" and c: "(i, rel) \<in> set (arrays ?t ! j)" by blast
    from child_origin [OF j c] have e: "(pattern (flat ! j), j) \<in> set ?m" by simp
    from c child_membership [OF e i, of rel lc]
    have "i \<noteq> j" and "nests_under (pattern (flat ! i)) (pattern (flat ! j))"
      using nests_relative_iff [of "pattern (flat ! i)" "pattern (flat ! j)" rel] by auto
    with e show "?child i" by blast
  qed
  have "set (routes_top ?t) = {i. i < length flat \<and> \<not> ?child i}"
    unfolding rt set_array_sort by auto
  also have "\<dots> = {i. i < length flat \<and> \<not> (\<exists>j rel. j < length flat \<and> (i, rel) \<in> set (arrays ?t ! j))}"
    using h by (intro Collect_cong) (metis (no_types, lifting))
  finally show "set (routes_top ?t) =
     {i. i < length flat \<and> \<not> (\<exists>j rel. j < length flat \<and> (i, rel) \<in> set (arrays ?t ! j))}" .
qed



section \<open>Nesting: which routes become children\<close>

text \<open>
  C4. The nesting-parent candidates are the entries of \<open>map_parent\<close>: each is a route of the
  flat list entered under its own pattern, it is not the root \<open>/\<close> and its file is not an
  index file, and no two entries have the same pattern. The first pass enters every such
  route: the pattern of each route that is not the root and whose file is not an index
  file is a key of \<open>map_parent\<close>, and the key is bound to the last route of the flat list
  that has this pattern and is not from an index file. For a candidate \<open>j\<close> entered under
  \<open>pp\<close> and a route \<open>i\<close> of the flat list, the children array of \<open>j\<close> holds a copy of \<open>i\<close> with
  the relative pattern \<open>rel\<close> exactly when \<open>i\<close> is another route and either its pattern is \<open>pp\<close>,
  \<open>/\<close> and the slash-free \<open>rel\<close>, or its pattern is \<open>pp\<close> itself and \<open>rel\<close> is empty. Only
  candidates have children, and only routes of the flat list are children. The routes at
  the top level are, each once, the routes that are in no children array. The files
  \<open>users\<close>, \<open>users/index\<close> and \<open>users/[id]\<close>, scanned in any of the six orders, give the one
  top-level route \<open>/users\<close> with the children \<open>""\<close> and \<open>:id\<close>; without the file \<open>users\<close>, in
  either order, \<open>/users\<close> and \<open>/users/:id\<close> are two top-level routes without children. A
  dynamic route is a parent like any other: \<open>[id]\<close> takes \<open>[id]/index\<close> and \<open>[id]/[x]\<close> as its
  children. Of the two files \<open>x.vue\<close> and \<open>x.ts\<close> with the one pattern \<open>/x\<close>, the one scanned
  last is the parent, and the other is its index child.
\<close>

theorem C4_nesting:
  "(\<forall>lc flat.
      list_all (parent_entry flat) (parents_pass 0 flat [])
      \<and> distinct (map fst (parents_pass 0 flat []))
      \<and> (\<forall>pp j. ((pp, j) \<in> set (parents_pass 0 flat []))
            = (parent_entry flat (pp, j) \<and> (\<forall>k. parent_entry flat (pp, k) \<longrightarrow> k \<le> j)))
      \<and> (\<forall>j. j < length flat \<and> pattern (flat ! j) \<noteq> ''/''
              \<and> \<not> is_index_file (basename (filePath (flat ! j))) \<longrightarrow>
            (\<exists>k. j \<le> k \<and> (pattern (flat ! j), k) \<in> set (parents_pass 0 flat [])))
      \<and> flat_routes (buildRouteTree lc flat) = flat
      \<and> length (arrays (buildRouteTree lc flat)) = length flat
      \<and> (\<forall>pp j i rel. (pp, j) \<in> set (parents_pass 0 flat []) \<and> i < length flat \<longrightarrow>
            ((i, rel) \<in> set (arrays (buildRouteTree lc flat) ! j))
            = (i \<noteq> j \<and> ((pattern (flat ! i) = pp @ ''/'' @ rel \<and> CHR ''/'' \<notin> set rel)
                        \<or> (pattern (flat ! i) = pp \<and> rel = []))))
      \<and> (\<forall>j i rel. j < length flat \<and> (i, rel) \<in> set (arrays (buildRouteTree lc flat) ! j) \<longrightarrow>
            i < length flat \<and> (pattern (flat ! j), j) \<in> set (parents_pass 0 flat []))
      \<and> distinct (routes_top (buildRouteTree lc flat))
      \<and> set (routes_top (buildRouteTree lc flat)) =
          {i. i < length flat
              \<and> \<not> (\<exists>j rel. j < length flat \<and> (i, rel) \<in> set (arrays (buildRouteTree lc flat) ! j))})
   \<and> (\<forall>lc. list_all
         (\<lambda>files.
            route_values 2
              (scanPageRoutes lc (\<lambda>d. if d = ''/p/pages'' then Some (\<lambda>pat. files) else None) ''/p/pages'')
            = Some [Route ''/users'' ''/p/pages/users.vue'' False []
                      [Route [] ''/p/pages/users/index.vue'' False [] [],
                       Route '':id'' ''/p/pages/users/[id].vue'' True [''id''] []]])
         [[''users.vue'', ''users/index.vue'', ''users/[id].vue''],
          [''users.vue'', ''users/[id].vue'', ''users/index.vue''],
          [''users/index.vue'', ''users.vue'', ''users/[id].vue''],
          [''users/index.vue'', ''users/[id].vue'', ''users.vue''],
          [''users/[id].vue'', ''users.vue'', ''users/index.vue''],
          [''users/[id].vue'', ''users/index.vue'', ''users.vue'']])
   \<and> (\<forall>lc. list_all
         (\<lambda>files.
            route_values 2
              (scanPageRoutes lc (\<lambda>d. if d = ''/p/pages'' then Some (\<lambda>pat. files) else None) ''/p/pages'')
            = Some [Route ''/users'' ''/p/pages/users/index.vue'' False [] [],
                    Route ''/users/:id'' ''/p/pages/users/[id].vue'' True [''id''] []])
         [[''users/index.vue'', ''users/[id].vue''],
          [''users/[id].vue'', ''users/index.vue'']])
   \<and> (\<forall>lc. route_values 2
              (scanPageRoutes lc (\<lambda>d. if d = ''/p/pages'' then Some (\<lambda>pat. [''[id]/[x].vue'', ''[id].vue'', ''[id]/index.vue'']) else None) ''/p/pages'')
         = Some [Route ''/:id'' ''/p/pages/[id].vue'' True [''id'']
               [Route [] ''/p/pages/[id]/index.vue'' True [''id''] [],
                Route '':x'' ''/p/pages/[id]/[x].vue'' True [''id'', ''x''] []]])
   \<and> (\<forall>lc. route_values 2
              (scanPageRoutes lc (\<lambda>d. if d = ''/p/pages'' then Some (\<lambda>pat. [''x.vue'', ''x/[y].vue'', ''x.ts'']) else None) ''/p/pages'')
         = Some [Route ''/x'' ''/p/pages/x.ts'' False []
               [Route [] ''/p/pages/x.vue'' False [] [],
                Route '':y'' ''/p/pages/x/[y].vue'' True [''y''] []]])"
proof (intro conjI allI impI)
  fix lc :: "string \<Rightarrow> string \<Rightarrow> int" and flat
  show "list_all (parent_entry flat) (parents_pass 0 flat [])"
    and "distinct (map fst (parents_pass 0 flat []))"
    using map_parent_entries by blast+
  show "flat_routes (buildRouteTree lc flat) = flat"
    by (rule buildRouteTree_spec(1))
  show "length (arrays (buildRouteTree lc flat)) = length flat"
    by (rule buildRouteTree_spec(2))
  show "distinct (routes_top (buildRouteTree lc flat))"
    by (rule top_level_routes(1))
  show "set (routes_top (buildRouteTree lc flat)) =
          {i. i < length flat
              \<and> \<not> (\<exists>j rel. j < length flat \<and> (i, rel) \<in> set (arrays (buildRouteTree lc flat) ! j))}"
    by (rule top_level_routes(2))
next
  fix flat pp j
  show "((pp, j) \<in> set (parents_pass 0 flat []))
            = (parent_entry flat (pp, j) \<and> (\<forall>k. parent_entry flat (pp, k) \<longrightarrow> k \<le> j))"
    by (rule map_parent_last)
next
  fix flat j
  assume "j < length flat \<and> pattern (flat ! j) \<noteq> ''/''
              \<and> \<not> is_index_file (basename (filePath (flat ! j)))"
  then show "\<exists>k. j \<le> k \<and> (pattern (flat ! j), k) \<in> set (parents_pass 0 flat [])"
    using map_parent_key by blast
next
  fix lc :: "string \<Rightarrow> string \<Rightarrow> int" and flat pp j i rel
  assume "(pp, j) \<in> set (parents_pass 0 flat []) \<and> i < length flat"
  then show "((i, rel) \<in> set (arrays (buildRouteTree lc flat) ! j))
            = (i \<noteq> j \<and> ((pattern (flat ! i) = pp @ ''/'' @ rel \<and> CHR ''/'' \<notin> set rel)
                        \<or> (pattern (flat ! i) = pp \<and> rel = [])))"
    using child_membership by blast
next
  fix lc :: "string \<Rightarrow> string \<Rightarrow> int" and flat j i rel
  assume a: "j < length flat \<and> (i, rel) \<in> set (arrays (buildRouteTree lc flat) ! j)"
  then show "i < length flat" and "(pattern (flat ! j), j) \<in> set (parents_pass 0 flat [])"
    using child_origin by blast+
next
  fix lc :: "string \<Rightarrow> string \<Rightarrow> int"
  let ?scan = "\<lambda>files. route_values 2
              (scanPageRoutes lc (\<lambda>d. if d = ''/p/pages'' then Some (\<lambda>pat. files) else None) ''/p/pages'')"
  let ?result = "Some [Route ''/users'' ''/p/pages/users.vue'' False []
                      [Route [] ''/p/pages/users/index.vue'' False [] [],
                       Route '':id'' ''/p/pages/users/[id].vue'' True [''id''] []]]"
  have o1: "?scan [''users.vue'', ''users/index.vue'', ''users/[id].vue''] = ?result"
    by code_simp
  have o2: "?scan [''users.vue'', ''users/[id].vue'', ''users/index.vue''] = ?result"
    by code_simp
  have o3: "?scan [''users/index.vue'', ''users.vue'', ''users/[id].vue''] = ?result"
    by code_simp
  have o4: "?scan [''users/index.vue'', ''users/[id].vue'', ''users.vue''] = ?result"
    by code_simp
  have o5: "?scan [''users/[id].vue'', ''users.vue'', ''users/index.vue''] = ?result"
    by code_simp
  have o6: "?scan [''users/[id].vue'', ''users/index.vue'', ''users.vue''] = ?result"
    by code_simp
  show "list_all
         (\<lambda>files.
            route_values 2
              (scanPageRoutes lc (\<lambda>d. if d = ''/p/pages'' then Some (\<lambda>pat. files) else None) ''/p/pages'')
            = Some [Route ''/users'' ''/p/pages/users.vue'' False []
                      [Route [] ''/p/pages/users/index.vue'' False [] [],
                       Route '':id'' ''/p/pages/users/[id].vue'' True [''id''] []]])
         [[''users.vue'', ''users/index.vue'', ''users/[id].vue''],
          [''users.vue'', ''users/[id].vue'', ''users/index.vue''],
          [''users/index.vue'', ''users.vue'', ''users/[id].vue''],
          [''users/index.vue'', ''users/[id].vue'', ''users.vue''],
          [''users/[id].vue'', ''users.vue'', ''users/index.vue''],
          [''users/[id].vue'', ''users/index.vue'', ''users.vue'']]"
    by (simp only: list_all_Cons_iff list_all_Nil_iff o1 o2 o3 o4 o5 o6 simp_thms)
next
  fix lc :: "string \<Rightarrow> string \<Rightarrow> int"
  let ?scan = "\<lambda>files. route_values 2
              (scanPageRoutes lc (\<lambda>d. if d = ''/p/pages'' then Some (\<lambda>pat. files) else None) ''/p/pages'')"
  let ?result = "Some [Route ''/users'' ''/p/pages/users/index.vue'' False [] [],
                    Route ''/users/:id'' ''/p/pages/users/[id].vue'' True [''id''] []]"
  have o1: "?scan [''users/index.vue'', ''users/[id].vue''] = ?result"
    by code_simp
  have o2: "?scan [''users/[id].vue'', ''users/index.vue''] = ?result"
    by code_simp
  show "list_all
         (\<lambda>files.
            route_values 2
              (scanPageRoutes lc (\<lambda>d. if d = ''/p/pages'' then Some (\<lambda>pat. files) else None) ''/p/pages'')
            = Some [Route ''/users'' ''/p/pages/users/index.vue'' False [] [],
                    Route ''/users/:id'' ''/p/pages/users/[id].vue'' True [''id''] []])
         [[''users/index.vue'', ''users/[id].vue''],
          [''users/[id].vue'', ''users/index.vue'']]"
    by (simp only: list_all_Cons_iff list_all_Nil_iff o1 o2 simp_thms)
next
  fix lc :: "string \<Rightarrow> string \<Rightarrow> int"
  show "route_values 2
              (scanPageRoutes lc (\<lambda>d. if d = ''/p/pages'' then Some (\<lambda>pat. [''[id]/[x].vue'', ''[id].vue'', ''[id]/index.vue'']) else None) ''/p/pages'')
         = Some [Route ''/:id'' ''/p/pages/[id].vue'' True [''id'']
               [Route [] ''/p/pages/[id]/index.vue'' True [''id''] [],
                Route '':x'' ''/p/pages/[id]/[x].vue'' True [''id'', ''x''] []]]"
    by code_simp
next
  fix lc :: "string \<Rightarrow> string \<Rightarrow> int"
  show "route_values 2
              (scanPageRoutes lc (\<lambda>d. if d = ''/p/pages'' then Some (\<lambda>pat. [''x.vue'', ''x/[y].vue'', ''x.ts'']) else None) ''/p/pages'')
         = Some [Route ''/x'' ''/p/pages/x.ts'' False []
               [Route [] ''/p/pages/x.vue'' False [] [],
                Route '':y'' ''/p/pages/x/[y].vue'' True [''y''] []]]"
    by code_simp
qed


text \<open>
  The hypotheses of C4 hold on the flat list of \<open>users/[id].vue\<close>, \<open>users.vue\<close> and
  \<open>users/index.vue\<close>: \<open>users.vue\<close> is the last route with the pattern \<open>/users\<close> that is not from
  an index file, so it is a candidate, and the other two are its children.
\<close>

theorem C4_nesting_witness:
  "parent_entry
       [Route ''/users/:id'' ''/p/pages/users/[id].vue'' True [''id''] [],
        Route ''/users'' ''/p/pages/users.vue'' False [] [],
        Route ''/users'' ''/p/pages/users/index.vue'' False [] []] (''/users'', 1)
   \<and> \<not> parent_entry
       [Route ''/users/:id'' ''/p/pages/users/[id].vue'' True [''id''] [],
        Route ''/users'' ''/p/pages/users.vue'' False [] [],
        Route ''/users'' ''/p/pages/users/index.vue'' False [] []] (''/users'', 2)
   \<and> (''/users'', 1) \<in> set (parents_pass 0
       [Route ''/users/:id'' ''/p/pages/users/[id].vue'' True [''id''] [],
        Route ''/users'' ''/p/pages/users.vue'' False [] [],
        Route ''/users'' ''/p/pages/users/index.vue'' False [] []] [])
   \<and> (0, '':id'') \<in> set (arrays (buildRouteTree code_unit_compare
       [Route ''/users/:id'' ''/p/pages/users/[id].vue'' True [''id''] [],
        Route ''/users'' ''/p/pages/users.vue'' False [] [],
        Route ''/users'' ''/p/pages/users/index.vue'' False [] []]) ! 1)
   \<and> (2, []) \<in> set (arrays (buildRouteTree code_unit_compare
       [Route ''/users/:id'' ''/p/pages/users/[id].vue'' True [''id''] [],
        Route ''/users'' ''/p/pages/users.vue'' False [] [],
        Route ''/users'' ''/p/pages/users/index.vue'' False [] []]) ! 1)
   \<and> (2, ''index'') \<notin> set (arrays (buildRouteTree code_unit_compare
       [Route ''/users/:id'' ''/p/pages/users/[id].vue'' True [''id''] [],
        Route ''/users'' ''/p/pages/users.vue'' False [] [],
        Route ''/users'' ''/p/pages/users/index.vue'' False [] []]) ! 1)
   \<and> routes_top (buildRouteTree code_unit_compare
       [Route ''/users/:id'' ''/p/pages/users/[id].vue'' True [''id''] [],
        Route ''/users'' ''/p/pages/users.vue'' False [] [],
        Route ''/users'' ''/p/pages/users/index.vue'' False [] []]) = [1]
   \<and> 1 \<in> {i. i < 3 \<and> \<not> (\<exists>j rel. j < 3 \<and> (i, rel) \<in> set (arrays (buildRouteTree code_unit_compare
       [Route ''/users/:id'' ''/p/pages/users/[id].vue'' True [''id''] [],
        Route ''/users'' ''/p/pages/users.vue'' False [] [],
        Route ''/users'' ''/p/pages/users/index.vue'' False [] []]) ! j))}"
proof -
  let ?flat = "[Route ''/users/:id'' ''/p/pages/users/[id].vue'' True [''id''] [],
        Route ''/users'' ''/p/pages/users.vue'' False [] [],
        Route ''/users'' ''/p/pages/users/index.vue'' False [] []]"
  let ?t = "buildRouteTree code_unit_compare ?flat"
  note c = C4_nesting [THEN conjunct1, rule_format, of ?flat code_unit_compare]
  note c3 = c [THEN conjunct2, THEN conjunct2, THEN conjunct1]
  note c4 = c [THEN conjunct2, THEN conjunct2, THEN conjunct2, THEN conjunct1]
  note c7 = c [THEN conjunct2, THEN conjunct2, THEN conjunct2, THEN conjunct2, THEN conjunct2, THEN conjunct2, THEN conjunct1]
  note c10 = c [THEN conjunct2, THEN conjunct2, THEN conjunct2, THEN conjunct2, THEN conjunct2, THEN conjunct2, THEN conjunct2, THEN conjunct2, THEN conjunct2]
  have p1: "parent_entry ?flat (''/users'', 1)"
    unfolding parent_entry_def by code_simp
  have p2: "\<not> parent_entry ?flat (''/users'', 2)"
    unfolding parent_entry_def by code_simp
  have last: "\<forall>k. parent_entry ?flat (''/users'', k) \<longrightarrow> k \<le> 1"
  proof (intro allI impI)
    fix k assume k: "parent_entry ?flat (''/users'', k)"
    then have "k < 3" by (simp add: parent_entry_def)
    moreover from k p2 have "k \<noteq> 2" by blast
    ultimately show "k \<le> 1" by simp
  qed
  from p1 last have e: "(''/users'', 1) \<in> set (parents_pass 0 ?flat [])"
    unfolding c3 [rule_format, of "''/users''" 1] by blast
  have h: "1 < length ?flat \<and> pattern (?flat ! 1) \<noteq> ''/''
              \<and> \<not> is_index_file (basename (filePath (?flat ! 1)))"
    using p1 by (simp add: parent_entry_def)
  from c4 [rule_format, of 1, OF h]
  have "\<exists>k. 1 \<le> k \<and> (pattern (?flat ! 1), k) \<in> set (parents_pass 0 ?flat [])" .
  have t1: "(0, '':id'') \<in> set (arrays ?t ! 1)"
    using c7 [rule_format, of "''/users''" 1 0 "'':id''"] e by simp
  have t2: "(2, []) \<in> set (arrays ?t ! 1)"
    using c7 [rule_format, of "''/users''" 1 2 "[]"] e by simp
  have t3: "(2, ''index'') \<notin> set (arrays ?t ! 1)"
    using c7 [rule_format, of "''/users''" 1 2 "''index''"] e by simp
  have t4: "routes_top ?t = [1]"
    by code_simp
  have "1 \<in> set (routes_top ?t)" by (simp add: t4)
  then have t5: "1 \<in> {i. i < 3 \<and> \<not> (\<exists>j rel. j < 3 \<and> (i, rel) \<in> set (arrays ?t ! j))}"
    unfolding c10 by simp
  show ?thesis
    by (intro conjI) (rule p1 p2 e t1 t2 t3 t4 t5)+
qed


section \<open>Precedence and the sorted order\<close>

lemma precedence_loop_spec:
  "list_all marked_segment parts \<Longrightarrow>
     precedence_loop i parts score =
       score + sum_list (map (\<lambda>(position, seg). spec_penalty (spec_kind seg) position) (enumerate i parts))"
proof (induction parts arbitrary: i score)
  case Nil
  then show ?case by simp
next
  case (Cons p parts)
  from Cons.prems have m: "marked_segment p" and r: "list_all marked_segment parts" by simp_all
  have "(if endsWith p ''+'' then score + (10000 + i)
         else if endsWith p ''*'' then score + (20000 + i)
         else if startsWith p '':'' then score + (100 + i)
         else score) = score + spec_penalty (spec_kind p) i"
    using m by (auto simp: marked_segment_def spec_kind_def endsWith_char)
  then show ?case
    using Cons.IH [OF r] by simp
qed

lemma routePrecedence_spec:
  "list_all marked_segment (segments_of pat) \<Longrightarrow> routePrecedence pat = spec_precedence pat"
  by (simp add: routePrecedence_def spec_precedence_def precedence_loop_spec)

lemma compare_patterns_precedes: "(compare_patterns lc a b \<le> 0) = precedes lc a b"
  by (auto simp: compare_patterns_def precedes_def Let_def)

lemma precedes_total:
  assumes "consistent_comparator lc"
  shows "precedes lc a b \<or> precedes lc b a"
  using assms unfolding consistent_comparator_def precedes_def
  by (metis linorder_neqE_nat)

lemma precedes_trans:
  assumes "consistent_comparator lc" and "precedes lc a b" and "precedes lc b c"
  shows "precedes lc a c"
proof -
  from assms(1) have t: "\<And>x y z. lc x y \<le> 0 \<Longrightarrow> lc y z \<le> 0 \<Longrightarrow> lc x z \<le> 0"
    unfolding consistent_comparator_def by blast
  from assms(2,3) show ?thesis
    unfolding precedes_def using t by (metis less_trans)
qed

lemma code_unit_compare_total: "code_unit_compare a b \<le> 0 \<or> code_unit_compare b a \<le> 0"
  by (induction a b rule: code_unit_compare.induct) auto

lemma code_unit_compare_trans:
  "code_unit_compare a b \<le> 0 \<Longrightarrow> code_unit_compare b c \<le> 0 \<Longrightarrow> code_unit_compare a c \<le> 0"
proof (induction a arbitrary: b c)
  case Nil
  then show ?case by (cases c) simp_all
next
  case (Cons x xs)
  then show ?case
    by (cases b; cases c) (auto split: if_splits)
qed

lemma code_unit_compare_consistent: "consistent_comparator code_unit_compare"
  unfolding consistent_comparator_def
  using code_unit_compare_total code_unit_compare_trans by blast


lemma sorted_top_level:
  assumes c: "consistent_comparator lc"
  shows "sorted_wrt (precedes lc) (map (\<lambda>i. pattern (flat ! i)) (routes_top (buildRouteTree lc flat)))"
proof -
  let ?cmp = "\<lambda>a b. compare_patterns lc (pattern (flat ! a)) (pattern (flat ! b))"
  have total: "\<And>a b. ?cmp a b \<le> 0 \<or> ?cmp b a \<le> 0"
    using precedes_total [OF c] by (simp add: compare_patterns_precedes)
  have trans: "\<And>a b c. ?cmp a b \<le> 0 \<Longrightarrow> ?cmp b c \<le> 0 \<Longrightarrow> ?cmp a c \<le> 0"
    using precedes_trans [OF c] by (simp add: compare_patterns_precedes)
  have "sorted_wrt (\<lambda>a b. ?cmp a b \<le> 0) (routes_top (buildRouteTree lc flat))"
    unfolding buildRouteTree_spec(4) using total trans by (rule sorted_array_sort)
  then show ?thesis
    by (simp add: sorted_wrt_map compare_patterns_precedes)
qed

lemma sorted_children_of_top:
  assumes c: "consistent_comparator lc" and i: "i \<in> set (routes_top (buildRouteTree lc flat))"
  shows "sorted_wrt (precedes lc) (map snd (arrays (buildRouteTree lc flat) ! i))"
proof -
  let ?cmp = "\<lambda>a b. compare_patterns lc (snd a) (snd b)"
  have total: "\<And>a b. ?cmp a b \<le> 0 \<or> ?cmp b a \<le> 0"
    using precedes_total [OF c] by (simp add: compare_patterns_precedes)
  have trans: "\<And>a b c. ?cmp a b \<le> 0 \<Longrightarrow> ?cmp b c \<le> 0 \<Longrightarrow> ?cmp a c \<le> 0"
    using precedes_trans [OF c] by (simp add: compare_patterns_precedes)
  from i have "i < length flat
      \<and> \<not> (\<exists>pp j. (pp, j) \<in> set (parents_pass 0 flat []) \<and> i \<noteq> j \<and> nests_under (pattern (flat ! i)) pp)"
    unfolding buildRouteTree_spec(4) set_array_sort by simp
  then obtain xs where "arrays (buildRouteTree lc flat) ! i = array_sort ?cmp xs"
    using buildRouteTree_spec(5) [of flat lc] by blast
  moreover have "sorted_wrt (\<lambda>a b. ?cmp a b \<le> 0) (array_sort ?cmp xs)"
    using total trans by (rule sorted_array_sort)
  ultimately show ?thesis
    by (simp add: sorted_wrt_map compare_patterns_precedes)
qed


text \<open>
  C1, as amended. For a pattern in which every segment that ends in \<open>+\<close> or \<open>*\<close> starts with
  \<open>:\<close>, the score of \<open>routePrecedence\<close> is the sum the specification gives: over the
  non-empty segments, by position, nothing for a static segment, \<open>100 + position\<close> for
  \<open>:name\<close>, \<open>10000 + position\<close> for \<open>:name+\<close> and \<open>20000 + position\<close> for \<open>:name*\<close>. When the
  locale comparison orders strings consistently, \<open>buildRouteTree\<close> returns the top-level
  routes, and the children array of every top-level route, in ascending order of the
  score, equal scores in the order of the comparison of the patterns (for a child, of its
  relative pattern). The files \<open>about\<close>, \<open>[id]\<close> and \<open>[...slug]\<close>, scanned in any of the six
  orders, come out as \<open>/about\<close>, \<open>/:id\<close>, \<open>/:slug+\<close>.
\<close>

theorem C1_precedence_and_order:
  "(\<forall>pat. list_all marked_segment (segments_of pat) \<longrightarrow> routePrecedence pat = spec_precedence pat)
   \<and> (\<forall>lc flat. consistent_comparator lc \<longrightarrow>
         sorted_wrt (precedes lc)
           (map (\<lambda>i. pattern (flat ! i)) (routes_top (buildRouteTree lc flat)))
         \<and> (\<forall>i. i \<in> set (routes_top (buildRouteTree lc flat)) \<longrightarrow>
               sorted_wrt (precedes lc) (map snd (arrays (buildRouteTree lc flat) ! i))))
   \<and> (\<forall>lc. list_all
         (\<lambda>files.
            route_values 1
              (scanPageRoutes lc (\<lambda>d. if d = ''/p/pages'' then Some (\<lambda>pat. files) else None) ''/p/pages'')
            = Some [Route ''/about'' ''/p/pages/about.vue'' False [] [],
                    Route ''/:id'' ''/p/pages/[id].vue'' True [''id''] [],
                    Route ''/:slug+'' ''/p/pages/[...slug].vue'' True [''slug''] []])
         [[''about.vue'', ''[id].vue'', ''[...slug].vue''],
          [''about.vue'', ''[...slug].vue'', ''[id].vue''],
          [''[id].vue'', ''about.vue'', ''[...slug].vue''],
          [''[id].vue'', ''[...slug].vue'', ''about.vue''],
          [''[...slug].vue'', ''about.vue'', ''[id].vue''],
          [''[...slug].vue'', ''[id].vue'', ''about.vue'']])"
proof (intro conjI allI impI)
  fix pat assume "list_all marked_segment (segments_of pat)"
  then show "routePrecedence pat = spec_precedence pat" by (rule routePrecedence_spec)
next
  fix lc flat assume "consistent_comparator lc"
  then show "sorted_wrt (precedes lc)
           (map (\<lambda>i. pattern (flat ! i)) (routes_top (buildRouteTree lc flat)))"
    by (rule sorted_top_level)
next
  fix lc flat i
  assume "consistent_comparator lc" and "i \<in> set (routes_top (buildRouteTree lc flat))"
  then show "sorted_wrt (precedes lc) (map snd (arrays (buildRouteTree lc flat) ! i))"
    by (rule sorted_children_of_top)
next
  fix lc :: "string \<Rightarrow> string \<Rightarrow> int"
  let ?scan = "\<lambda>files. route_values 1
              (scanPageRoutes lc (\<lambda>d. if d = ''/p/pages'' then Some (\<lambda>pat. files) else None) ''/p/pages'')"
  let ?sorted = "Some [Route ''/about'' ''/p/pages/about.vue'' False [] [],
                    Route ''/:id'' ''/p/pages/[id].vue'' True [''id''] [],
                    Route ''/:slug+'' ''/p/pages/[...slug].vue'' True [''slug''] []]"
  have o1: "?scan [''about.vue'', ''[id].vue'', ''[...slug].vue''] = ?sorted"
    by code_simp
  have o2: "?scan [''about.vue'', ''[...slug].vue'', ''[id].vue''] = ?sorted"
    by code_simp
  have o3: "?scan [''[id].vue'', ''about.vue'', ''[...slug].vue''] = ?sorted"
    by code_simp
  have o4: "?scan [''[id].vue'', ''[...slug].vue'', ''about.vue''] = ?sorted"
    by code_simp
  have o5: "?scan [''[...slug].vue'', ''about.vue'', ''[id].vue''] = ?sorted"
    by code_simp
  have o6: "?scan [''[...slug].vue'', ''[id].vue'', ''about.vue''] = ?sorted"
    by code_simp
  show "list_all
         (\<lambda>files.
            route_values 1
              (scanPageRoutes lc (\<lambda>d. if d = ''/p/pages'' then Some (\<lambda>pat. files) else None) ''/p/pages'')
            = Some [Route ''/about'' ''/p/pages/about.vue'' False [] [],
                    Route ''/:id'' ''/p/pages/[id].vue'' True [''id''] [],
                    Route ''/:slug+'' ''/p/pages/[...slug].vue'' True [''slug''] []])
         [[''about.vue'', ''[id].vue'', ''[...slug].vue''],
          [''about.vue'', ''[...slug].vue'', ''[id].vue''],
          [''[id].vue'', ''about.vue'', ''[...slug].vue''],
          [''[id].vue'', ''[...slug].vue'', ''about.vue''],
          [''[...slug].vue'', ''about.vue'', ''[id].vue''],
          [''[...slug].vue'', ''[id].vue'', ''about.vue'']]"
    by (simp only: list_all_Cons_iff list_all_Nil_iff o1 o2 o3 o4 o5 o6 simp_thms)
qed



text \<open>
  The hypotheses of C1 hold: on the pattern \<open>/users/:id/:rest*\<close>, and with the byte-wise
  comparison on the flat list of \<open>b.vue\<close>, \<open>[id].vue\<close>, \<open>a.vue\<close>, \<open>users.vue\<close>,
  \<open>users/[x].vue\<close>, \<open>users/index.vue\<close>.
\<close>

theorem C1_precedence_and_order_witness:
  "list_all marked_segment (segments_of ''/users/:id/:rest*'')
   \<and> routePrecedence ''/users/:id/:rest*'' = 20103
   \<and> spec_precedence ''/users/:id/:rest*'' = 20103
   \<and> consistent_comparator code_unit_compare
   \<and> map (\<lambda>i. pattern (map (\<lambda>f. fileToRoute f ''/p/pages'')
              [''b.vue'', ''[id].vue'', ''a.vue'', ''users.vue'', ''users/[x].vue'', ''users/index.vue''] ! i))
         (routes_top (buildRouteTree code_unit_compare (map (\<lambda>f. fileToRoute f ''/p/pages'')
              [''b.vue'', ''[id].vue'', ''a.vue'', ''users.vue'', ''users/[x].vue'', ''users/index.vue''])))
       = [''/a'', ''/b'', ''/users'', ''/:id'']
   \<and> sorted_wrt (precedes code_unit_compare) [''/a'', ''/b'', ''/users'', ''/:id'']
   \<and> 3 \<in> set (routes_top (buildRouteTree code_unit_compare (map (\<lambda>f. fileToRoute f ''/p/pages'')
              [''b.vue'', ''[id].vue'', ''a.vue'', ''users.vue'', ''users/[x].vue'', ''users/index.vue''])))
   \<and> map snd (arrays (buildRouteTree code_unit_compare (map (\<lambda>f. fileToRoute f ''/p/pages'')
              [''b.vue'', ''[id].vue'', ''a.vue'', ''users.vue'', ''users/[x].vue'', ''users/index.vue''])) ! 3)
       = [[], '':x'']
   \<and> sorted_wrt (precedes code_unit_compare) [[], '':x'']"
proof -
  let ?flat = "map (\<lambda>f. fileToRoute f ''/p/pages'')
              [''b.vue'', ''[id].vue'', ''a.vue'', ''users.vue'', ''users/[x].vue'', ''users/index.vue'']"
  let ?t = "buildRouteTree code_unit_compare ?flat"
  note c = C1_precedence_and_order
  have h1: "list_all marked_segment (segments_of ''/users/:id/:rest*'')"
    by code_simp
  from c [THEN conjunct1, rule_format, OF h1]
  have e: "routePrecedence ''/users/:id/:rest*'' = spec_precedence ''/users/:id/:rest*''" .
  have t1: "routePrecedence ''/users/:id/:rest*'' = 20103" by code_simp
  with e have t2: "spec_precedence ''/users/:id/:rest*'' = 20103" by simp
  have h2: "consistent_comparator code_unit_compare" by (rule code_unit_compare_consistent)
  note s = c [THEN conjunct2, THEN conjunct1, rule_format, OF h2, of ?flat]
  have fl: "?flat =
      [Route ''/b'' ''/p/pages/b.vue'' False [] [],
       Route ''/:id'' ''/p/pages/[id].vue'' True [''id''] [],
       Route ''/a'' ''/p/pages/a.vue'' False [] [],
       Route ''/users'' ''/p/pages/users.vue'' False [] [],
       Route ''/users/:x'' ''/p/pages/users/[x].vue'' True [''x''] [],
       Route ''/users'' ''/p/pages/users/index.vue'' False [] []]"
    by code_simp
  have rt: "routes_top ?t = [2, 0, 3, 1]"
    unfolding fl by code_simp
  have ar: "arrays ?t ! 3 = [(5, []), (4, '':x'')]"
    unfolding fl by code_simp
  have t3: "map (\<lambda>i. pattern (?flat ! i)) (routes_top ?t) = [''/a'', ''/b'', ''/users'', ''/:id'']"
    unfolding rt unfolding fl by simp
  from s [THEN conjunct1]
  have t4: "sorted_wrt (precedes code_unit_compare) [''/a'', ''/b'', ''/users'', ''/:id'']"
    unfolding t3 .
  have t5: "3 \<in> set (routes_top ?t)" unfolding rt by simp
  have t6: "map snd (arrays ?t ! 3) = [[], '':x'']" unfolding ar by simp
  from s [THEN conjunct2, rule_format, OF t5]
  have t7: "sorted_wrt (precedes code_unit_compare) [[], '':x'']"
    unfolding t6 .
  show ?thesis
    by (intro conjI) (rule h1 t1 t2 h2 t3 t4 t5 t6 t7)+
qed



text \<open>
  C1 as stated fails twice. The children array of a route that is itself a child is not
  sorted: with \<open>a\<close>, \<open>a/b\<close>, \<open>a/b/[id]\<close> and \<open>a/b/c\<close>, the route \<open>b\<close> under \<open>/a\<close> has the children
  \<open>:id\<close> (score 100) and \<open>c\<close> (score 0) in that order, since \<open>sort\<close> is called on the children
  of the top-level routes only. And the static segment of \<open>/c++\<close>, the pattern of the file
  \<open>c++.vue\<close>, is scored as a catch-all.
\<close>

theorem C1_counterexample:
  "route_values 3
     (scanPageRoutes code_unit_compare
        (\<lambda>d. if d = ''/p/pages''
              then Some (\<lambda>pat. [''a/b/[id].vue'', ''a.vue'', ''a/b/c.vue'', ''a/b.vue'']) else None)
        ''/p/pages'')
   = Some [Route ''/a'' ''/p/pages/a.vue'' False []
             [Route ''b'' ''/p/pages/a/b.vue'' False []
                [Route '':id'' ''/p/pages/a/b/[id].vue'' True [''id''] [],
                 Route ''c'' ''/p/pages/a/b/c.vue'' False [] []]]]
   \<and> routePrecedence '':id'' = 100 \<and> routePrecedence ''c'' = 0
   \<and> pattern (fileToRoute ''c++.vue'' ''/p/pages'') = ''/c++''
   \<and> map spec_kind (segments_of ''/c++'') = [Static]
   \<and> spec_precedence ''/c++'' = 0
   \<and> routePrecedence ''/c++'' = 10000"
proof -
  have "route_values 3
     (scanPageRoutes code_unit_compare
        (\<lambda>d. if d = ''/p/pages''
              then Some (\<lambda>pat. [''a/b/[id].vue'', ''a.vue'', ''a/b/c.vue'', ''a/b.vue'']) else None)
        ''/p/pages'')
   = Some [Route ''/a'' ''/p/pages/a.vue'' False []
             [Route ''b'' ''/p/pages/a/b.vue'' False []
                [Route '':id'' ''/p/pages/a/b/[id].vue'' True [''id''] [],
                 Route ''c'' ''/p/pages/a/b/c.vue'' False [] []]]]"
    by code_simp
  moreover have "routePrecedence '':id'' = 100" by code_simp
  moreover have "routePrecedence ''c'' = 0" by code_simp
  moreover have "pattern (fileToRoute ''c++.vue'' ''/p/pages'') = ''/c++''" by code_simp
  moreover have "map spec_kind (segments_of ''/c++'') = [Static]" by code_simp
  moreover have "spec_precedence ''/c++'' = 0" by code_simp
  moreover have "routePrecedence ''/c++'' = 10000" by code_simp
  ultimately show ?thesis by (intro conjI)
qed

end
